theory Spec2Isabelle
  imports Main "HOL-Library.Word" "HOL-Library.Code_Target_Nat"
begin

section \<open>The Makaka archive tool (makakatool.cpp)\<close>

text \<open>
  A shallow embedding of the archive writer (\<open>createArchive\<close>), the two readers
  (\<open>extractArchive\<close>, \<open>listArchiveContents\<close>) and the codec wrappers of
  \<^verbatim>\<open>makakatool.cpp\<close>.

  Conventions of the model:
  \<^item> \<open>uint8_t\<close>, \<open>uint16_t\<close>, \<open>uint32_t\<close> and \<open>uint64_t\<close> are words of that width;
    \<open>std::string\<close> is \<open>string\<close> (a list of 8-bit characters) and a
    \<open>std::vector<uint8_t>\<close> is a list of bytes.
  \<^item> The program writes and reads integers through \<open>reinterpret_cast\<close> of their
    storage; the model fixes a little-endian host.
  \<^item> An input file stream is its content, a position and the fail state. A short
    \<open>read\<close> copies the characters that are left, leaves the rest of the destination
    as it was and puts the stream into the fail state, where every later read copies
    nothing. The program never tests the state of a stream after opening it.
  \<^item> A local scalar that a failed \<open>read\<close> did not fill holds no determined value.
    It is \<open>None\<close> in the model, and the operation ends with the outcome
    \<open>Indeterminate\<close> at the first place where the program uses it. Strings and
    vectors are constructed zero-filled, so a short read into them is determined.
  \<^item> The compression libraries (liblzma, libzstd) are parameters of the model.
  \<^item> The file system is a collaborator: input files are a lookup from path to content,
    the archive written is the byte sequence sent to the output stream, and an
    extracted file is the pair of the entry's name (which the program resolves below
    the output directory) and the bytes written to it. Creating directories and
    opening an output file are taken to succeed; allocation is taken to succeed;
    diagnostics on \<open>std::cerr\<close> are not modelled.
\<close>

type_synonym byte = "8 word"

subsection \<open>Constants and the compression tag\<close>

definition MAKAKA_SIGNATURE :: "32 word" where
  "MAKAKA_SIGNATURE = 0x4D4B4B41"

definition MAKAKA_VERSION :: "16 word" where
  "MAKAKA_VERSION = 0x0100"

datatype CompressionType = COMPRESS_NONE | COMPRESS_LZMA | COMPRESS_ZSTD

fun compression_value :: "CompressionType \<Rightarrow> 16 word" where
  "compression_value COMPRESS_NONE = 0"
| "compression_value COMPRESS_LZMA = 1"
| "compression_value COMPRESS_ZSTD = 2"

subsection \<open>Errors and outcomes\<close>

text \<open>
  Every exception of the program is a \<open>std::runtime_error\<close> told apart by its
  message; the model has one constructor for each message.
\<close>

datatype error =
    OutputCreateFailed          \<comment> \<open>"Failed to create output file"\<close>
  | ArchiveOpenFailed           \<comment> \<open>"Failed to open archive"\<close>
  | InvalidFileFormat           \<comment> \<open>"Invalid file format"\<close>
  | LZMAInitFailed              \<comment> \<open>"LZMA compression initialization failed"\<close>
  | ZSTDCompressionFailed string
  | ZSTDDecompressionFailed string

datatype outcome = Returned | Thrown error | Indeterminate

subsection \<open>Integers as stored bytes\<close>

fun le_bytes :: "nat \<Rightarrow> nat \<Rightarrow> byte list" where
  "le_bytes 0 v = []"
| "le_bytes (Suc k) v = of_nat (v mod 256) # le_bytes k (v div 256)"

fun le_value :: "byte list \<Rightarrow> nat" where
  "le_value [] = 0"
| "le_value (b # bs) = unat b + 256 * le_value bs"

definition put_u16 :: "16 word \<Rightarrow> byte list" where
  "put_u16 w = le_bytes 2 (unat w)"

definition put_u32 :: "32 word \<Rightarrow> byte list" where
  "put_u32 w = le_bytes 4 (unat w)"

definition put_u64 :: "64 word \<Rightarrow> byte list" where
  "put_u64 w = le_bytes 8 (unat w)"

definition string_bytes :: "string \<Rightarrow> byte list" where
  "string_bytes s = map of_char s"

definition bytes_string :: "byte list \<Rightarrow> string" where
  "bytes_string bs = map (\<lambda>b. char_of (unat b)) bs"

subsection \<open>Input streams\<close>

record istream =
  content :: "byte list"
  pos :: nat
  failbit :: bool

definition open_stream :: "byte list \<Rightarrow> istream" where
  "open_stream bs = \<lparr>content = bs, pos = 0, failbit = False\<rparr>"

text \<open>\<open>in.read(p, n)\<close>: the characters copied and the stream afterwards.\<close>

definition read :: "nat \<Rightarrow> istream \<Rightarrow> byte list \<times> istream" where
  "read n s =
     (if failbit s then ([], s)
      else let avail = drop (pos s) (content s)
           in if n \<le> length avail then (take n avail, s\<lparr>pos := pos s + n\<rparr>)
              else (avail, s\<lparr>pos := pos s + length avail, failbit := True\<rparr>))"

text \<open>A read into an uninitialised scalar of \<open>k\<close> bytes.\<close>

definition read_scalar :: "nat \<Rightarrow> istream \<Rightarrow> nat option \<times> istream" where
  "read_scalar k s =
     (case read k s of (bs, s') \<Rightarrow>
        (if length bs = k then Some (le_value bs) else None, s'))"

definition read_u16 :: "istream \<Rightarrow> 16 word option \<times> istream" where
  "read_u16 s = (case read_scalar 2 s of (v, s') \<Rightarrow> (map_option of_nat v, s'))"

definition read_u32 :: "istream \<Rightarrow> 32 word option \<times> istream" where
  "read_u32 s = (case read_scalar 4 s of (v, s') \<Rightarrow> (map_option of_nat v, s'))"

definition read_u64 :: "istream \<Rightarrow> 64 word option \<times> istream" where
  "read_u64 s = (case read_scalar 8 s of (v, s') \<Rightarrow> (map_option of_nat v, s'))"

text \<open>A read into a string or vector constructed with \<open>n\<close> zero bytes.\<close>

definition read_buffer :: "nat \<Rightarrow> istream \<Rightarrow> byte list \<times> istream" where
  "read_buffer n s =
     (case read n s of (bs, s') \<Rightarrow> (bs @ replicate (n - length bs) 0, s'))"

text \<open>
  \<open>in.seekg(off, std::ios::cur)\<close> with the \<open>uint64_t\<close> offset converted to the signed
  stream offset. Nothing happens in the fail state; a position before the start
  fails; a position past the end of the file is accepted.
\<close>

definition seekg_cur :: "64 word \<Rightarrow> istream \<Rightarrow> istream" where
  "seekg_cur off s =
     (if failbit s then s
      else let p = int (pos s) + sint off
           in if p < 0 then s\<lparr>failbit := True\<rparr> else s\<lparr>pos := nat p\<rparr>)"

subsection \<open>The compression libraries\<close>

datatype lzma_ret =
    LZMA_OK | LZMA_STREAM_END | LZMA_MEM_ERROR | LZMA_OPTIONS_ERROR
  | LZMA_UNSUPPORTED_CHECK | LZMA_BUF_ERROR | LZMA_PROG_ERROR

text \<open>
  \<open>lzma_code L input avail_out\<close> is one call of \<open>lzma_code(&stream, LZMA_FINISH)\<close> on
  a fresh encoder: its return code and the \<open>total_out\<close> bytes it wrote (at most
  \<open>avail_out\<close>).
\<close>

record lzma_lib =
  lzma_easy_encoder :: lzma_ret
  lzma_code :: "byte list \<Rightarrow> nat \<Rightarrow> lzma_ret \<times> byte list"

text \<open>
  \<open>ZSTD_compress Z capacity src\<close> and \<open>ZSTD_decompress Z capacity src\<close>: the name of
  the error when \<open>ZSTD_isError\<close> holds of the result, otherwise the bytes written
  to the destination (at most \<open>capacity\<close>).
\<close>

record zstd_lib =
  ZSTD_compressBound :: "nat \<Rightarrow> nat"
  ZSTD_compress :: "nat \<Rightarrow> byte list \<Rightarrow> string + byte list"
  ZSTD_decompress :: "nat \<Rightarrow> byte list \<Rightarrow> string + byte list"

definition compressWithLZMA :: "lzma_lib \<Rightarrow> byte list \<Rightarrow> error + byte list" where
  "compressWithLZMA L input =
     (if lzma_easy_encoder L \<noteq> LZMA_OK then Inl LZMAInitFailed
      else Inr (snd (lzma_code L input (3 * length input div 2))))"

definition compressWithZSTD :: "zstd_lib \<Rightarrow> byte list \<Rightarrow> error + byte list" where
  "compressWithZSTD Z input =
     (case ZSTD_compress Z (ZSTD_compressBound Z (length input)) input of
        Inl name \<Rightarrow> Inl (ZSTDCompressionFailed name)
      | Inr written \<Rightarrow> Inr written)"

definition decompressZSTD :: "zstd_lib \<Rightarrow> byte list \<Rightarrow> nat \<Rightarrow> error + byte list" where
  "decompressZSTD Z input original_size =
     (case ZSTD_decompress Z original_size input of
        Inl name \<Rightarrow> Inl (ZSTDDecompressionFailed name)
      | Inr written \<Rightarrow> Inr (written @ replicate (original_size - length written) 0))"

subsection \<open>The writer\<close>

text \<open>The header writes of \<open>createArchive\<close> (lines 77 to 82).\<close>

definition header_bytes :: "16 word \<Rightarrow> 16 word \<Rightarrow> 32 word \<Rightarrow> byte list" where
  "header_bytes version compression file_count =
     put_u32 MAKAKA_SIGNATURE @ put_u16 version @ put_u16 compression @ put_u32 file_count"

text \<open>The five writes of one entry (lines 113 to 117).\<close>

definition entry_bytes ::
  "32 word \<Rightarrow> string \<Rightarrow> 64 word \<Rightarrow> 64 word \<Rightarrow> byte list \<Rightarrow> byte list" where
  "entry_bytes name_length file_path original_size compressed_size compressed_data =
     put_u32 name_length @ take (unat name_length) (string_bytes file_path)
     @ put_u64 original_size @ put_u64 compressed_size
     @ take (unat compressed_size) compressed_data"

text \<open>The \<open>switch\<close> on the compression tag (lines 97 to 107).\<close>

fun compress_data ::
  "lzma_lib \<Rightarrow> zstd_lib \<Rightarrow> CompressionType \<Rightarrow> byte list \<Rightarrow> error + byte list" where
  "compress_data L Z COMPRESS_LZMA file_data = compressWithLZMA L file_data"
| "compress_data L Z COMPRESS_ZSTD file_data = compressWithZSTD Z file_data"
| "compress_data L Z COMPRESS_NONE file_data = Inr file_data"

text \<open>
  The loop over the input paths: the bytes it sends to the output stream and how it
  ends. A path that cannot be opened is skipped.
\<close>

fun createArchive_loop ::
  "lzma_lib \<Rightarrow> zstd_lib \<Rightarrow> (string \<Rightarrow> byte list option) \<Rightarrow> CompressionType \<Rightarrow>
   string list \<Rightarrow> byte list \<times> outcome" where
  "createArchive_loop L Z fs compression [] = ([], Returned)"
| "createArchive_loop L Z fs compression (file_path # rest) =
     (case fs file_path of
        None \<Rightarrow> createArchive_loop L Z fs compression rest
      | Some file_data \<Rightarrow>
          (case compress_data L Z compression file_data of
             Inl e \<Rightarrow> ([], Thrown e)
           | Inr compressed_data \<Rightarrow>
               (case createArchive_loop L Z fs compression rest of
                  (later, r) \<Rightarrow>
                    (entry_bytes (of_nat (length file_path)) file_path
                       (of_nat (length file_data)) (of_nat (length compressed_data))
                       compressed_data @ later, r))))"

text \<open>
  \<open>createArchive\<close>: \<open>out_ok\<close> says whether the output file could be created. The
  entry count of the header is \<open>files.size()\<close>, written before the loop runs.
\<close>

definition createArchive ::
  "lzma_lib \<Rightarrow> zstd_lib \<Rightarrow> (string \<Rightarrow> byte list option) \<Rightarrow> string list \<Rightarrow> bool \<Rightarrow>
   CompressionType \<Rightarrow> byte list \<times> outcome" where
  "createArchive L Z fs files out_ok compression =
     (if \<not> out_ok then ([], Thrown OutputCreateFailed)
      else case createArchive_loop L Z fs compression files of
             (entries, r) \<Rightarrow>
               (header_bytes MAKAKA_VERSION (compression_value compression)
                  (of_nat (length files)) @ entries, r))"

subsection \<open>The readers\<close>

text \<open>
  What a reader prints on \<open>std::cout\<close>, one value for each line (the line
  \<open>Archive: <path>\<close> of the listing names the file and is left out).
\<close>

datatype out_line =
    VersionLine nat nat                      \<comment> \<open>\<open>version >> 8\<close> and \<open>version & 0xFF\<close>\<close>
  | CompressionLine string
  | CountLine "32 word"
  | ExtractingLine string "64 word" "64 word"  \<comment> \<open>name, original size, compressed size\<close>
  | ListedLine string "64 word" "64 word"

text \<open>The \<open>switch\<close> that names the compression (lines 138 to 142 and 200 to 204).\<close>

definition compression_name :: "16 word \<Rightarrow> string" where
  "compression_name compression =
     (if compression = compression_value COMPRESS_LZMA then ''LZMA''
      else if compression = compression_value COMPRESS_ZSTD then ''ZSTD''
      else ''None'')"

definition version_line :: "16 word \<Rightarrow> out_line" where
  "version_line version = VersionLine (unat (drop_bit 8 version)) (unat (and version 0xFF))"

text \<open>
  The state of an extraction: the archive stream, the lines printed and the files
  written so far, in order.
\<close>

record xstate =
  inp :: istream
  stdout :: "out_line list"
  written :: "(string \<times> byte list) list"

text \<open>The choice between decompressing and copying (lines 168 to 173).\<close>

definition decode_data ::
  "zstd_lib \<Rightarrow> 16 word \<Rightarrow> byte list \<Rightarrow> 64 word option \<Rightarrow> (outcome + byte list)" where
  "decode_data Z compression compressed_data original_size =
     (if compression = compression_value COMPRESS_ZSTD then
        (case original_size of
           None \<Rightarrow> Inl Indeterminate
         | Some n \<Rightarrow>
             (case decompressZSTD Z compressed_data (unat n) of
                Inl e \<Rightarrow> Inl (Thrown e)
              | Inr file_data \<Rightarrow> Inr file_data))
      else Inr compressed_data)"

text \<open>One turn of the loop of \<open>extractArchive\<close> (lines 150 to 179).\<close>

definition extract_entry ::
  "zstd_lib \<Rightarrow> 16 word option \<Rightarrow> bool \<Rightarrow> xstate \<Rightarrow> xstate \<times> outcome" where
  "extract_entry Z compression verbose st =
     (case read_u32 (inp st) of
        (None, s1) \<Rightarrow> (st\<lparr>inp := s1\<rparr>, Indeterminate)
      | (Some name_length, s1) \<Rightarrow>
     (case read_buffer (unat name_length) s1 of (file_name, s2) \<Rightarrow>
     (case read_u64 s2 of (original_size, s3) \<Rightarrow>
     (case read_u64 s3 of (compressed_size, s4) \<Rightarrow>
     (case (if \<not> verbose then Some (stdout st)
            else case (original_size, compressed_size) of
                   (Some n, Some m) \<Rightarrow>
                     Some (stdout st @ [ExtractingLine (bytes_string file_name) n m])
                 | _ \<Rightarrow> None) of
        None \<Rightarrow> (st\<lparr>inp := s4\<rparr>, Indeterminate)
      | Some printed \<Rightarrow>
     (case compressed_size of
        None \<Rightarrow> (st\<lparr>inp := s4, stdout := printed\<rparr>, Indeterminate)
      | Some m \<Rightarrow>
     (case read_buffer (unat m) s4 of (compressed_data, s5) \<Rightarrow>
     (case compression of
        None \<Rightarrow> (st\<lparr>inp := s5, stdout := printed\<rparr>, Indeterminate)
      | Some c \<Rightarrow>
     (case decode_data Z c compressed_data original_size of
        Inl r \<Rightarrow> (st\<lparr>inp := s5, stdout := printed\<rparr>, r)
      | Inr file_data \<Rightarrow>
          (st\<lparr>inp := s5, stdout := printed,
              written := written st @ [(bytes_string file_name, file_data)]\<rparr>,
           Returned))))))))))"

fun extract_loop ::
  "zstd_lib \<Rightarrow> 16 word option \<Rightarrow> bool \<Rightarrow> nat \<Rightarrow> xstate \<Rightarrow> xstate \<times> outcome" where
  "extract_loop Z compression verbose 0 st = (st, Returned)"
| "extract_loop Z compression verbose (Suc n) st =
     (case extract_entry Z compression verbose st of
        (st', Returned) \<Rightarrow> extract_loop Z compression verbose n st'
      | (st', r) \<Rightarrow> (st', r))"

text \<open>
  \<open>extractArchive\<close>: the archive is \<open>None\<close> when the file cannot be opened. The
  header fields \<open>version\<close> and \<open>compression\<close> are used before the loop only when
  \<open>verbose\<close> is set.
\<close>

definition extractArchive ::
  "zstd_lib \<Rightarrow> byte list option \<Rightarrow> bool \<Rightarrow> xstate \<times> outcome" where
  "extractArchive Z archive verbose =
     (case archive of
        None \<Rightarrow> (\<lparr>inp = open_stream [], stdout = [], written = []\<rparr>, Thrown ArchiveOpenFailed)
      | Some bytes \<Rightarrow>
     (let st = \<lparr>inp = open_stream bytes, stdout = [], written = []\<rparr> in
      case read_u32 (inp st) of
        (None, s1) \<Rightarrow> (st\<lparr>inp := s1\<rparr>, Indeterminate)
      | (Some signature, s1) \<Rightarrow>
     (if signature \<noteq> MAKAKA_SIGNATURE then (st\<lparr>inp := s1\<rparr>, Thrown InvalidFileFormat)
      else
     (case read_u16 s1 of (version, s2) \<Rightarrow>
     (case read_u16 s2 of (compression, s3) \<Rightarrow>
     (case (if \<not> verbose then Some []
            else case (version, compression) of
                   (Some v, Some c) \<Rightarrow>
                     Some [version_line v, CompressionLine (compression_name c)]
                 | _ \<Rightarrow> None) of
        None \<Rightarrow> (st\<lparr>inp := s3\<rparr>, Indeterminate)
      | Some printed \<Rightarrow>
     (case read_u32 s3 of
        (None, s4) \<Rightarrow> (st\<lparr>inp := s4, stdout := printed\<rparr>, Indeterminate)
      | (Some file_count, s4) \<Rightarrow>
          extract_loop Z compression verbose (unat file_count)
            (st\<lparr>inp := s4,
                stdout := printed @ (if verbose then [CountLine file_count] else [])\<rparr>))))))))"

text \<open>The state of a listing: the archive stream and the lines printed.\<close>

record lstate =
  l_inp :: istream
  l_stdout :: "out_line list"

text \<open>One turn of the loop of \<open>listArchiveContents\<close> (lines 211 to 224).\<close>

definition list_entry :: "lstate \<Rightarrow> lstate \<times> outcome" where
  "list_entry st =
     (case read_u32 (l_inp st) of
        (None, s1) \<Rightarrow> (st\<lparr>l_inp := s1\<rparr>, Indeterminate)
      | (Some name_length, s1) \<Rightarrow>
     (case read_buffer (unat name_length) s1 of (file_name, s2) \<Rightarrow>
     (case read_u64 s2 of (original_size, s3) \<Rightarrow>
     (case read_u64 s3 of (compressed_size, s4) \<Rightarrow>
     (case (original_size, compressed_size) of
        (Some n, Some m) \<Rightarrow>
          (st\<lparr>l_inp := seekg_cur m s4,
              l_stdout := l_stdout st @ [ListedLine (bytes_string file_name) n m]\<rparr>,
           Returned)
      | _ \<Rightarrow> (st\<lparr>l_inp := s4\<rparr>, Indeterminate))))))"

fun list_loop :: "nat \<Rightarrow> lstate \<Rightarrow> lstate \<times> outcome" where
  "list_loop 0 st = (st, Returned)"
| "list_loop (Suc n) st =
     (case list_entry st of
        (st', Returned) \<Rightarrow> list_loop n st'
      | (st', r) \<Rightarrow> (st', r))"

definition listArchiveContents :: "byte list option \<Rightarrow> lstate \<times> outcome" where
  "listArchiveContents archive =
     (case archive of
        None \<Rightarrow> (\<lparr>l_inp = open_stream [], l_stdout = []\<rparr>, Thrown ArchiveOpenFailed)
      | Some bytes \<Rightarrow>
     (let st = \<lparr>l_inp = open_stream bytes, l_stdout = []\<rparr> in
      case read_u32 (l_inp st) of
        (None, s1) \<Rightarrow> (st\<lparr>l_inp := s1\<rparr>, Indeterminate)
      | (Some signature, s1) \<Rightarrow>
     (if signature \<noteq> MAKAKA_SIGNATURE then (st\<lparr>l_inp := s1\<rparr>, Thrown InvalidFileFormat)
      else
     (case read_u16 s1 of (version, s2) \<Rightarrow>
     (case read_u16 s2 of (compression, s3) \<Rightarrow>
     (case (version, compression) of
        (Some v, Some c) \<Rightarrow>
          (case read_u32 s3 of
             (None, s4) \<Rightarrow>
               (st\<lparr>l_inp := s4,
                   l_stdout := [version_line v, CompressionLine (compression_name c)]\<rparr>,
                Indeterminate)
           | (Some file_count, s4) \<Rightarrow>
               list_loop (unat file_count)
                 (st\<lparr>l_inp := s4,
                     l_stdout := [version_line v, CompressionLine (compression_name c),
                                  CountLine file_count]\<rparr>))
      | _ \<Rightarrow> (st\<lparr>l_inp := s3\<rparr>, Indeterminate)))))))"

subsection \<open>Archives as the byte layout describes them\<close>

text \<open>
  An archive in the layout the writer emits: a header and entries, each a name, the
  recorded original size and the stored payload. Its stream is built with the
  writer's own \<open>header_bytes\<close> and \<open>entry_bytes\<close>; the lengths must fit the
  fields that hold them.
\<close>

record entry =
  e_name :: string
  e_original_size :: "64 word"
  e_payload :: "byte list"

record archive =
  a_version :: "16 word"
  a_compression :: "16 word"
  a_entries :: "entry list"

definition stored_entry :: "entry \<Rightarrow> byte list" where
  "stored_entry e =
     entry_bytes (of_nat (length (e_name e))) (e_name e) (e_original_size e)
       (of_nat (length (e_payload e))) (e_payload e)"

definition archive_stream :: "archive \<Rightarrow> byte list" where
  "archive_stream a =
     header_bytes (a_version a) (a_compression a) (of_nat (length (a_entries a)))
     @ concat (map stored_entry (a_entries a))"

text \<open>
  A name is counted by a 32-bit field. A payload is counted by a 64-bit field that
  the listing converts to a signed stream offset, and no file is longer than the
  largest such offset.
\<close>

definition entry_fits :: "entry \<Rightarrow> bool" where
  "entry_fits e \<longleftrightarrow> length (e_name e) < 2 ^ 32 \<and> length (e_payload e) < 2 ^ 63"

definition archive_fits :: "archive \<Rightarrow> bool" where
  "archive_fits a \<longleftrightarrow> length (a_entries a) < 2 ^ 32 \<and> list_all entry_fits (a_entries a)"

text \<open>
  What \<open>extractArchive\<close> makes of an entry's payload under the archive's
  compression tag, and whether that succeeds.
\<close>

definition decodes :: "zstd_lib \<Rightarrow> 16 word \<Rightarrow> entry \<Rightarrow> bool" where
  "decodes Z c e \<longleftrightarrow> \<not> isl (decode_data Z c (e_payload e) (Some (e_original_size e)))"

definition decoded :: "zstd_lib \<Rightarrow> 16 word \<Rightarrow> entry \<Rightarrow> byte list" where
  "decoded Z c e = projr (decode_data Z c (e_payload e) (Some (e_original_size e)))"

text \<open>
  A well-formed archive: the lengths fit their fields and every payload can be
  decoded under the archive's compression tag.
\<close>

definition well_formed :: "zstd_lib \<Rightarrow> archive \<Rightarrow> bool" where
  "well_formed Z a \<longleftrightarrow>
     archive_fits a \<and> list_all (decodes Z (a_compression a)) (a_entries a)"

text \<open>The lines the readers print for an entry, and the triple they carry.\<close>

definition extracting_line :: "entry \<Rightarrow> out_line" where
  "extracting_line e =
     ExtractingLine (e_name e) (e_original_size e) (of_nat (length (e_payload e)))"

definition listed_line :: "entry \<Rightarrow> out_line" where
  "listed_line e =
     ListedLine (e_name e) (e_original_size e) (of_nat (length (e_payload e)))"

fun triple_of :: "out_line \<Rightarrow> (string \<times> 64 word \<times> 64 word) option" where
  "triple_of (ExtractingLine name n m) = Some (name, n, m)"
| "triple_of (ListedLine name n m) = Some (name, n, m)"
| "triple_of _ = None"

definition triples :: "out_line list \<Rightarrow> (string \<times> 64 word \<times> 64 word) list" where
  "triples ls = List.map_filter triple_of ls"

text \<open>A stream that is in the good state with \<open>xs\<close> ahead of its position.\<close>

definition at :: "istream \<Rightarrow> byte list \<Rightarrow> bool" where
  "at s xs \<longleftrightarrow> \<not> failbit s \<and> drop (pos s) (content s) = xs"

definition advance :: "nat \<Rightarrow> istream \<Rightarrow> istream" where
  "advance n s = s\<lparr>pos := pos s + n\<rparr>"

text \<open>The lines printed for the header of an archive.\<close>

definition header_lines :: "archive \<Rightarrow> out_line list" where
  "header_lines a =
     [version_line (a_version a), CompressionLine (compression_name (a_compression a)),
      CountLine (of_nat (length (a_entries a)))]"

definition entry_triple :: "entry \<Rightarrow> string \<times> 64 word \<times> 64 word" where
  "entry_triple e = (e_name e, e_original_size e, of_nat (length (e_payload e)))"

text \<open>
  What the writer needs of libzstd for a buffer \<open>d\<close>: compressing into
  \<open>ZSTD_compressBound\<close> bytes succeeds, and decompressing the result with capacity
  \<open>length d\<close> gives \<open>d\<close> back.
\<close>

definition zstd_round_trip :: "zstd_lib \<Rightarrow> byte list \<Rightarrow> bool" where
  "zstd_round_trip Z d \<longleftrightarrow>
     (case ZSTD_compress Z (ZSTD_compressBound Z (length d)) d of
        Inl name \<Rightarrow> False
      | Inr c \<Rightarrow> length c < 2 ^ 63 \<and> ZSTD_decompress Z (length d) c = Inr d)"

text \<open>An entry as the writer stores it for a file and its compressed bytes.\<close>

definition packed_entry :: "string \<Rightarrow> byte list \<Rightarrow> byte list \<Rightarrow> entry" where
  "packed_entry file_path file_data compressed_data =
     \<lparr>e_name = file_path, e_original_size = of_nat (length file_data),
      e_payload = compressed_data\<rparr>"

subsection \<open>Instances for examples\<close>

text \<open>
  A stand-in for libzstd that stores data unchanged; it instantiates the library
  parameter where a theorem is exercised on a concrete input.
\<close>

definition zstd_stored :: zstd_lib where
  "zstd_stored =
     \<lparr>ZSTD_compressBound = (\<lambda>n. n),
      ZSTD_compress = (\<lambda>capacity src.
         if length src \<le> capacity then Inr src else Inl ''dstSize_tooSmall''),
      ZSTD_decompress = (\<lambda>capacity src.
         if length src \<le> capacity then Inr src else Inl ''dstSize_tooSmall'')\<rparr>"

definition example_archive :: "16 word \<Rightarrow> archive" where
  "example_archive c =
     \<lparr>a_version = MAKAKA_VERSION, a_compression = c,
      a_entries = [\<lparr>e_name = ''a.txt'', e_original_size = 3, e_payload = [1, 2, 3]\<rparr>,
                   \<lparr>e_name = ''b'', e_original_size = 0, e_payload = []\<rparr>]\<rparr>"

text \<open>A liblzma whose encoder cannot be set up.\<close>

definition lzma_unavailable :: lzma_lib where
  "lzma_unavailable =
     \<lparr>lzma_easy_encoder = LZMA_MEM_ERROR, lzma_code = (\<lambda>input avail_out. (LZMA_PROG_ERROR, []))\<rparr>"

text \<open>A file system with two readable files, one of them empty.\<close>

definition example_files :: "string \<Rightarrow> byte list option" where
  "example_files p =
     (if p = ''valid.txt'' then Some [0x68, 0x69, 0x0A]
      else if p = ''empty.bin'' then Some []
      else None)"

definition example_data :: "string \<Rightarrow> byte list" where
  "example_data p = (case example_files p of Some d \<Rightarrow> d | None \<Rightarrow> [])"

text \<open>An archive of one entry, packed without compression.\<close>

definition single_archive :: archive where
  "single_archive =
     \<lparr>a_version = MAKAKA_VERSION, a_compression = 0,
      a_entries = [\<lparr>e_name = ''a.txt'', e_original_size = 3, e_payload = [1, 2, 3]\<rparr>]\<rparr>"

text \<open>
  The first bytes of every \<^verbatim>\<open>.xz\<close> stream, and liblzma as it behaves while the
  output buffer is no longer than they are: the encoder is set up, \<open>lzma_code\<close>
  fills the buffer with the start of the stream header and returns \<open>LZMA_OK\<close>, the
  stream unfinished.
\<close>

definition xz_magic :: "byte list" where
  "xz_magic = [0xFD, 0x37, 0x7A, 0x58, 0x5A, 0x00]"

definition lzma_started :: lzma_lib where
  "lzma_started =
     \<lparr>lzma_easy_encoder = LZMA_OK,
      lzma_code = (\<lambda>input avail_out. (LZMA_OK, take avail_out xz_magic))\<rparr>"

section \<open>Reading back what the layout holds\<close>

lemma length_le_bytes: "length (le_bytes k v) = k"
  by (induction k arbitrary: v) simp_all

lemma le_value_le_bytes: "le_value (le_bytes k v) = v mod 256 ^ k"
proof (induction k arbitrary: v)
  case 0
  then show ?case by simp
next
  case (Suc k)
  have "unat (of_nat (v mod 256) :: byte) = v mod 256"
    by (simp add: unat_of_nat)
  then show ?case
    by (simp add: Suc mod_mult2_eq)
qed

lemma length_put: "length (put_u16 a) = 2" "length (put_u32 b) = 4" "length (put_u64 c) = 8"
  by (simp_all add: put_u16_def put_u32_def put_u64_def length_le_bytes)

lemma read_prefix:
  assumes "\<not> failbit s" and "drop (pos s) (content s) = xs @ rest" and "n = length xs"
  shows "read n s = (xs, s\<lparr>pos := pos s + n\<rparr>)"
  using assms by (simp add: read_def Let_def)

lemma drop_after:
  assumes "drop p c = xs @ rest"
  shows "drop (p + length xs) c = rest"
proof -
  have "drop (p + length xs) c = drop (length xs) (drop p c)"
    by (simp add: add.commute)
  then show ?thesis using assms by simp
qed

lemma value_put_u16: "(of_nat (le_value (put_u16 w)) :: 16 word) = w"
  using unsigned_less [of w, where ?'a = nat] by (simp add: put_u16_def le_value_le_bytes)
lemma value_put_u32: "(of_nat (le_value (put_u32 w)) :: 32 word) = w"
  using unsigned_less [of w, where ?'a = nat] by (simp add: put_u32_def le_value_le_bytes)
lemma value_put_u64: "(of_nat (le_value (put_u64 w)) :: 64 word) = w"
  using unsigned_less [of w, where ?'a = nat] by (simp add: put_u64_def le_value_le_bytes)

lemma read_u16_put:
  assumes "\<not> failbit s" and "drop (pos s) (content s) = put_u16 w @ rest"
  shows "read_u16 s = (Some w, s\<lparr>pos := pos s + 2\<rparr>)"
  using read_prefix [OF assms, of 2]
  by (simp add: read_u16_def read_scalar_def length_put value_put_u16)

lemma read_u32_put:
  assumes "\<not> failbit s" and "drop (pos s) (content s) = put_u32 w @ rest"
  shows "read_u32 s = (Some w, s\<lparr>pos := pos s + 4\<rparr>)"
  using read_prefix [OF assms, of 4]
  by (simp add: read_u32_def read_scalar_def length_put value_put_u32)

lemma read_u64_put:
  assumes "\<not> failbit s" and "drop (pos s) (content s) = put_u64 w @ rest"
  shows "read_u64 s = (Some w, s\<lparr>pos := pos s + 8\<rparr>)"
  using read_prefix [OF assms, of 8]
  by (simp add: read_u64_def read_scalar_def length_put value_put_u64)

lemma read_buffer_prefix:
  assumes "\<not> failbit s" and "drop (pos s) (content s) = xs @ rest" and "n = length xs"
  shows "read_buffer n s = (xs, s\<lparr>pos := pos s + n\<rparr>)"
  using read_prefix [OF assms] assms(3) by (simp add: read_buffer_def)

lemma unat_of_char: "unat (of_char c :: byte) = of_char c"
proof -
  have "(of_char c :: byte) = of_nat (of_char c)"
    by (simp add: of_nat_of_char)
  then have "unat (of_char c :: byte) = (of_char c :: nat) mod 256"
    by (simp add: unat_of_nat del: of_nat_of_char)
  then show ?thesis by simp
qed

lemma bytes_string_string_bytes: "bytes_string (string_bytes s) = s"
  by (induction s) (simp_all add: bytes_string_def string_bytes_def unat_of_char)



lemma advance_advance: "advance m (advance n s) = advance (n + m) s"
  by (simp add: advance_def add.assoc)

lemma advance_0: "advance 0 s = s"
  by (simp add: advance_def)

lemma at_advance:
  assumes "at s (xs @ rest)" and "n = length xs"
  shows "at (advance n s) rest"
  using assms drop_after [of "pos s" "content s" xs rest]
  by (simp add: at_def advance_def)

lemma at_open: "at (open_stream bs) bs"
  by (simp add: at_def open_stream_def)

lemma at_read_u16:
  assumes "at s (put_u16 w @ rest)"
  shows "read_u16 s = (Some w, advance 2 s)" and "at (advance 2 s) rest"
  using assms read_u16_put [of s w rest] at_advance [of s "put_u16 w" rest 2]
  by (simp_all add: at_def advance_def length_put)

lemma at_read_u32:
  assumes "at s (put_u32 w @ rest)"
  shows "read_u32 s = (Some w, advance 4 s)" and "at (advance 4 s) rest"
  using assms read_u32_put [of s w rest] at_advance [of s "put_u32 w" rest 4]
  by (simp_all add: at_def advance_def length_put)

lemma at_read_u64:
  assumes "at s (put_u64 w @ rest)"
  shows "read_u64 s = (Some w, advance 8 s)" and "at (advance 8 s) rest"
  using assms read_u64_put [of s w rest] at_advance [of s "put_u64 w" rest 8]
  by (simp_all add: at_def advance_def length_put)

lemma at_read_buffer:
  assumes "at s (xs @ rest)" and "n = length xs"
  shows "read_buffer n s = (xs, advance n s)" and "at (advance n s) rest"
  using assms read_buffer_prefix [of s xs rest n] at_advance [of s xs rest n]
  by (simp_all add: at_def advance_def)

lemma stored_entry_fits:
  assumes "entry_fits e"
  shows "stored_entry e =
           put_u32 (of_nat (length (e_name e))) @ string_bytes (e_name e)
           @ put_u64 (e_original_size e) @ put_u64 (of_nat (length (e_payload e)))
           @ e_payload e"
    and "unat (of_nat (length (e_name e)) :: 32 word) = length (e_name e)"
    and "unat (of_nat (length (e_payload e)) :: 64 word) = length (e_payload e)"
  using assms
  by (simp_all add: stored_entry_def entry_bytes_def entry_fits_def unat_of_nat string_bytes_def)

lemma length_stored_entry:
  assumes "entry_fits e"
  shows "length (stored_entry e) = 20 + length (e_name e) + length (e_payload e)"
  by (simp add: stored_entry_fits(1) [OF assms] length_put string_bytes_def)

lemma extract_entry_stored:
  assumes at: "at (inp st) (stored_entry e @ rest)"
    and fits: "entry_fits e"
    and dec: "decode_data Z c (e_payload e) (Some (e_original_size e)) = Inr d"
  shows "extract_entry Z (Some c) verbose st =
           (st\<lparr>inp := advance (length (stored_entry e)) (inp st),
               stdout := stdout st @ (if verbose then [extracting_line e] else []),
               written := written st @ [(e_name e, d)]\<rparr>, Returned)"
proof -
  let ?nl = "of_nat (length (e_name e)) :: 32 word"
  let ?cs = "of_nat (length (e_payload e)) :: 64 word"
  let ?s1 = "advance 4 (inp st)"
  let ?s2 = "advance (length (e_name e)) ?s1"
  let ?s3 = "advance 8 ?s2"
  let ?s4 = "advance 8 ?s3"
  let ?s5 = "advance (length (e_payload e)) ?s4"
  note shape = stored_entry_fits [OF fits]
  from at have a0: "at (inp st) (put_u32 ?nl @ (string_bytes (e_name e)
           @ put_u64 (e_original_size e) @ put_u64 ?cs @ e_payload e @ rest))"
    by (simp add: shape(1))
  have r1: "read_u32 (inp st) = (Some ?nl, ?s1)"
    and a1: "at ?s1 (string_bytes (e_name e) @ (put_u64 (e_original_size e) @ put_u64 ?cs @ e_payload e @ rest))"
    using at_read_u32 [OF a0] by simp_all
  have r2: "read_buffer (length (e_name e)) ?s1 = (string_bytes (e_name e), ?s2)"
    and a2: "at ?s2 (put_u64 (e_original_size e) @ (put_u64 ?cs @ e_payload e @ rest))"
    using at_read_buffer [OF a1, of "length (e_name e)"] by (simp_all add: string_bytes_def)
  have r3: "read_u64 ?s2 = (Some (e_original_size e), ?s3)"
    and a3: "at ?s3 (put_u64 ?cs @ (e_payload e @ rest))"
    using at_read_u64 [OF a2] by simp_all
  have r4: "read_u64 ?s3 = (Some ?cs, ?s4)"
    and a4: "at ?s4 (e_payload e @ rest)"
    using at_read_u64 [OF a3] by simp_all
  have r5: "read_buffer (length (e_payload e)) ?s4 = (e_payload e, ?s5)"
    using at_read_buffer [OF a4, of "length (e_payload e)"] by simp_all
  have s5: "?s5 = advance (length (stored_entry e)) (inp st)"
    by (simp add: advance_advance length_stored_entry [OF fits] add.commute add.left_commute)
  show ?thesis
    unfolding extract_entry_def
    by (simp add: r1 shape(2) r2 r3 r4 shape(3) r5 dec bytes_string_string_bytes
        extracting_line_def s5 [symmetric])
qed



lemma sint_of_nat_small:
  assumes "n < 2 ^ 63"
  shows "sint (of_nat n :: 64 word) = int n"
proof -
  have "uint (of_nat n :: 64 word) = int n"
    using assms by (simp add: uint_nat unat_of_nat)
  moreover have "signed_take_bit 63 (int n) = int n"
    using assms by (intro signed_take_bit_int_eq_self) simp_all
  ultimately show ?thesis
    by (simp add: sint_uint)
qed

lemma decodes_decoded:
  assumes "decodes Z c e"
  shows "decode_data Z c (e_payload e) (Some (e_original_size e)) = Inr (decoded Z c e)"
  using assms by (cases "decode_data Z c (e_payload e) (Some (e_original_size e))")
    (simp_all add: decodes_def decoded_def)

lemma extract_loop_stored:
  assumes "at (inp st) (concat (map stored_entry es) @ rest)"
    and "list_all entry_fits es"
    and "list_all (decodes Z c) es"
  shows "extract_loop Z (Some c) verbose (length es + n) st =
           extract_loop Z (Some c) verbose n
             (st\<lparr>inp := advance (length (concat (map stored_entry es))) (inp st),
                 stdout := stdout st @ (if verbose then map extracting_line es else []),
                 written := written st @ map (\<lambda>e. (e_name e, decoded Z c e)) es\<rparr>)"
  using assms
proof (induction es arbitrary: st)
  case Nil
  then show ?case by (simp add: advance_0)
next
  case (Cons e es)
  let ?st1 = "st\<lparr>inp := advance (length (stored_entry e)) (inp st),
               stdout := stdout st @ (if verbose then [extracting_line e] else []),
               written := written st @ [(e_name e, decoded Z c e)]\<rparr>"
  from Cons.prems have at0: "at (inp st) (stored_entry e @ (concat (map stored_entry es) @ rest))"
    and fit: "entry_fits e" and dec: "decodes Z c e"
    by simp_all
  have step: "extract_entry Z (Some c) verbose st = (?st1, Returned)"
    by (rule extract_entry_stored [OF at0 fit decodes_decoded [OF dec]])
  have at1: "at (inp ?st1) (concat (map stored_entry es) @ rest)"
    using at_advance [OF at0] by simp
  have "extract_loop Z (Some c) verbose (length (e # es) + n) st =
          extract_loop Z (Some c) verbose (length es + n) ?st1"
    by (simp add: step)
  also have "\<dots> = extract_loop Z (Some c) verbose n
       (?st1\<lparr>inp := advance (length (concat (map stored_entry es))) (inp ?st1),
             stdout := stdout ?st1 @ (if verbose then map extracting_line es else []),
             written := written ?st1 @ map (\<lambda>e. (e_name e, decoded Z c e)) es\<rparr>)"
    using Cons.prems by (intro Cons.IH [OF at1]) simp_all
  finally show ?case
    by (simp add: advance_advance)
qed

lemma list_entry_stored:
  assumes at: "at (l_inp st) (stored_entry e @ rest)"
    and fits: "entry_fits e"
  shows "list_entry st =
           (st\<lparr>l_inp := advance (length (stored_entry e)) (l_inp st),
               l_stdout := l_stdout st @ [listed_line e]\<rparr>, Returned)"
proof -
  let ?nl = "of_nat (length (e_name e)) :: 32 word"
  let ?cs = "of_nat (length (e_payload e)) :: 64 word"
  let ?s1 = "advance 4 (l_inp st)"
  let ?s2 = "advance (length (e_name e)) ?s1"
  let ?s3 = "advance 8 ?s2"
  let ?s4 = "advance 8 ?s3"
  note shape = stored_entry_fits [OF fits]
  from at have a0: "at (l_inp st) (put_u32 ?nl @ (string_bytes (e_name e)
           @ put_u64 (e_original_size e) @ put_u64 ?cs @ e_payload e @ rest))"
    by (simp add: shape(1))
  have r1: "read_u32 (l_inp st) = (Some ?nl, ?s1)"
    and a1: "at ?s1 (string_bytes (e_name e) @ (put_u64 (e_original_size e) @ put_u64 ?cs @ e_payload e @ rest))"
    using at_read_u32 [OF a0] by simp_all
  have r2: "read_buffer (length (e_name e)) ?s1 = (string_bytes (e_name e), ?s2)"
    and a2: "at ?s2 (put_u64 (e_original_size e) @ (put_u64 ?cs @ e_payload e @ rest))"
    using at_read_buffer [OF a1, of "length (e_name e)"] by (simp_all add: string_bytes_def)
  have r3: "read_u64 ?s2 = (Some (e_original_size e), ?s3)"
    and a3: "at ?s3 (put_u64 ?cs @ (e_payload e @ rest))"
    using at_read_u64 [OF a2] by simp_all
  have r4: "read_u64 ?s3 = (Some ?cs, ?s4)"
    and a4: "at ?s4 (e_payload e @ rest)"
    using at_read_u64 [OF a3] by simp_all
  have small: "length (e_payload e) < 2 ^ 63"
    using fits by (simp add: entry_fits_def)
  have "seekg_cur ?cs ?s4 = advance (length (e_payload e)) ?s4"
    using a4 by (simp add: seekg_cur_def at_def sint_of_nat_small [OF small] advance_def
        nat_add_distrib Let_def)
  also have "\<dots> = advance (length (stored_entry e)) (l_inp st)"
    by (simp add: advance_advance length_stored_entry [OF fits] add.commute add.left_commute)
  finally have r5: "seekg_cur ?cs ?s4 = advance (length (stored_entry e)) (l_inp st)" .
  show ?thesis
    unfolding list_entry_def
    by (simp add: r1 shape(2) r2 r3 r4 r5 bytes_string_string_bytes listed_line_def)
qed

lemma list_loop_stored:
  assumes "at (l_inp st) (concat (map stored_entry es) @ rest)"
    and "list_all entry_fits es"
  shows "list_loop (length es + n) st =
           list_loop n
             (st\<lparr>l_inp := advance (length (concat (map stored_entry es))) (l_inp st),
                 l_stdout := l_stdout st @ map listed_line es\<rparr>)"
  using assms
proof (induction es arbitrary: st)
  case Nil
  then show ?case by (simp add: advance_0)
next
  case (Cons e es)
  let ?st1 = "st\<lparr>l_inp := advance (length (stored_entry e)) (l_inp st),
               l_stdout := l_stdout st @ [listed_line e]\<rparr>"
  from Cons.prems have at0: "at (l_inp st) (stored_entry e @ (concat (map stored_entry es) @ rest))"
    and fit: "entry_fits e"
    by simp_all
  have step: "list_entry st = (?st1, Returned)"
    by (rule list_entry_stored [OF at0 fit])
  have at1: "at (l_inp ?st1) (concat (map stored_entry es) @ rest)"
    using at_advance [OF at0] by simp
  have "list_loop (length (e # es) + n) st = list_loop (length es + n) ?st1"
    by (simp add: step)
  also have "\<dots> = list_loop n
       (?st1\<lparr>l_inp := advance (length (concat (map stored_entry es))) (l_inp ?st1),
             l_stdout := l_stdout ?st1 @ map listed_line es\<rparr>)"
    using Cons.prems by (intro Cons.IH [OF at1]) simp_all
  finally show ?case
    by (simp add: advance_advance)
qed

lemma unat_entry_count:
  assumes "archive_fits a"
  shows "unat (of_nat (length (a_entries a)) :: 32 word) = length (a_entries a)"
  using assms by (simp add: archive_fits_def unat_of_nat)

lemma length_header_bytes: "length (header_bytes v c n) = 12"
  by (simp add: header_bytes_def length_put)

lemma extractArchive_stream:
  assumes fits: "archive_fits a"
    and dec: "list_all (decodes Z (a_compression a)) (a_entries a)"
  shows "extractArchive Z (Some (archive_stream a @ trailing)) verbose =
           (\<lparr>inp = advance (length (archive_stream a))
                     (open_stream (archive_stream a @ trailing)),
             stdout = (if verbose then header_lines a @ map extracting_line (a_entries a)
                       else []),
             written = map (\<lambda>e. (e_name e, decoded Z (a_compression a) e)) (a_entries a)\<rparr>,
            Returned)"
proof -
  let ?es = "a_entries a"
  let ?body = "concat (map stored_entry ?es)"
  let ?n = "of_nat (length ?es) :: 32 word"
  let ?s0 = "open_stream (archive_stream a @ trailing)"
  let ?s1 = "advance 4 ?s0"
  let ?s2 = "advance 6 ?s0"
  let ?s3 = "advance 8 ?s0"
  let ?s4 = "advance 12 ?s0"
  have a0: "at ?s0 (put_u32 MAKAKA_SIGNATURE @ (put_u16 (a_version a)
              @ put_u16 (a_compression a) @ put_u32 ?n @ ?body @ trailing))"
    using at_open [of "archive_stream a @ trailing"]
    by (simp add: archive_stream_def header_bytes_def)
  have r1: "read_u32 ?s0 = (Some MAKAKA_SIGNATURE, ?s1)"
    and a1: "at ?s1 (put_u16 (a_version a) @ (put_u16 (a_compression a) @ put_u32 ?n @ ?body @ trailing))"
    using at_read_u32 [OF a0] by simp_all
  have r2: "read_u16 ?s1 = (Some (a_version a), ?s2)"
    and a2: "at ?s2 (put_u16 (a_compression a) @ (put_u32 ?n @ ?body @ trailing))"
    using at_read_u16 [OF a1] by (simp_all add: advance_advance)
  have r3: "read_u16 ?s2 = (Some (a_compression a), ?s3)"
    and a3: "at ?s3 (put_u32 ?n @ (?body @ trailing))"
    using at_read_u16 [OF a2] by (simp_all add: advance_advance)
  have r4: "read_u32 ?s3 = (Some ?n, ?s4)"
    and a4: "at ?s4 (?body @ trailing)"
    using at_read_u32 [OF a3] by (simp_all add: advance_advance)
  have fits': "list_all entry_fits ?es"
    using fits by (simp add: archive_fits_def)
  have loop: "extract_loop Z (Some (a_compression a)) verbose (length ?es + 0) st =
      (st\<lparr>inp := advance (length ?body) (inp st),
          stdout := stdout st @ (if verbose then map extracting_line ?es else []),
          written := written st @ map (\<lambda>e. (e_name e, decoded Z (a_compression a) e)) ?es\<rparr>,
       Returned)" if "at (inp st) (?body @ trailing)" for st
    using extract_loop_stored [OF that fits' dec, of verbose 0] by simp
  have len: "length (archive_stream a) = 12 + length ?body"
    by (simp add: archive_stream_def length_header_bytes)
  show ?thesis
  proof (cases verbose)
    case True
    then show ?thesis
      unfolding extractArchive_def
      using a4 loop [of "\<lparr>inp = ?s4, stdout = header_lines a, written = []\<rparr>"]
      by (simp add: Let_def r1 r2 r3 r4 unat_entry_count [OF fits] header_lines_def
          advance_advance len)
  next
    case False
    then show ?thesis
      unfolding extractArchive_def
      using a4 loop [of "\<lparr>inp = ?s4, stdout = [], written = []\<rparr>"]
      by (simp add: Let_def r1 r2 r3 r4 unat_entry_count [OF fits] advance_advance len)
  qed
qed

lemma listArchiveContents_stream:
  assumes fits: "archive_fits a"
  shows "listArchiveContents (Some (archive_stream a @ trailing)) =
           (\<lparr>l_inp = advance (length (archive_stream a))
                       (open_stream (archive_stream a @ trailing)),
             l_stdout = header_lines a @ map listed_line (a_entries a)\<rparr>,
            Returned)"
proof -
  let ?es = "a_entries a"
  let ?body = "concat (map stored_entry ?es)"
  let ?n = "of_nat (length ?es) :: 32 word"
  let ?s0 = "open_stream (archive_stream a @ trailing)"
  let ?s1 = "advance 4 ?s0"
  let ?s2 = "advance 6 ?s0"
  let ?s3 = "advance 8 ?s0"
  let ?s4 = "advance 12 ?s0"
  have a0: "at ?s0 (put_u32 MAKAKA_SIGNATURE @ (put_u16 (a_version a)
              @ put_u16 (a_compression a) @ put_u32 ?n @ ?body @ trailing))"
    using at_open [of "archive_stream a @ trailing"]
    by (simp add: archive_stream_def header_bytes_def)
  have r1: "read_u32 ?s0 = (Some MAKAKA_SIGNATURE, ?s1)"
    and a1: "at ?s1 (put_u16 (a_version a) @ (put_u16 (a_compression a) @ put_u32 ?n @ ?body @ trailing))"
    using at_read_u32 [OF a0] by simp_all
  have r2: "read_u16 ?s1 = (Some (a_version a), ?s2)"
    and a2: "at ?s2 (put_u16 (a_compression a) @ (put_u32 ?n @ ?body @ trailing))"
    using at_read_u16 [OF a1] by (simp_all add: advance_advance)
  have r3: "read_u16 ?s2 = (Some (a_compression a), ?s3)"
    and a3: "at ?s3 (put_u32 ?n @ (?body @ trailing))"
    using at_read_u16 [OF a2] by (simp_all add: advance_advance)
  have r4: "read_u32 ?s3 = (Some ?n, ?s4)"
    and a4: "at ?s4 (?body @ trailing)"
    using at_read_u32 [OF a3] by (simp_all add: advance_advance)
  have fits': "list_all entry_fits ?es"
    using fits by (simp add: archive_fits_def)
  have loop: "list_loop (length ?es + 0) st =
      (st\<lparr>l_inp := advance (length ?body) (l_inp st),
          l_stdout := l_stdout st @ map listed_line ?es\<rparr>, Returned)"
    if "at (l_inp st) (?body @ trailing)" for st
    using list_loop_stored [OF that fits', of 0] by simp
  have len: "length (archive_stream a) = 12 + length ?body"
    by (simp add: archive_stream_def length_header_bytes)
  show ?thesis
    unfolding listArchiveContents_def
    using a4 loop [of "\<lparr>l_inp = ?s4, l_stdout = header_lines a\<rparr>"]
    by (simp add: Let_def r1 r2 r3 r4 unat_entry_count [OF fits] header_lines_def
        advance_advance len)
qed

lemma decodes_pass_through:
  assumes "c \<noteq> compression_value COMPRESS_ZSTD"
  shows "decodes Z c e" and "decoded Z c e = e_payload e"
  using assms by (simp_all add: decodes_def decoded_def decode_data_def)

lemma decoded_zstd:
  "decoded Z (compression_value COMPRESS_ZSTD) e =
     projr (decode_data Z 2 (e_payload e) (Some (e_original_size e)))"
  by (simp add: decoded_def)

lemma triples_listed: "triples (header_lines a @ map listed_line es) = map entry_triple es"
  by (induction es)
    (simp_all add: triples_def map_filter_def header_lines_def version_line_def
      listed_line_def entry_triple_def)

lemma triples_extracting: "triples (header_lines a @ map extracting_line es) = map entry_triple es"
  by (induction es)
    (simp_all add: triples_def map_filter_def header_lines_def version_line_def
      extracting_line_def entry_triple_def)

section \<open>The claims\<close>

subsection \<open>Which compression tag makes the reader decompress\<close>

text \<open>
  Claim C3. For every archive whose header names LZMA (value 1), \<open>extractArchive\<close>
  returns having written, for each entry, the stored payload bytes as they are. More
  generally, under every tag other than ZSTD (value 2) the result does not depend on
  the decompression library at all and the files written are the stored payloads.
  Under the ZSTD tag each file written is the result of \<open>decompressZSTD\<close> on the
  payload with the entry's recorded original size as the expected length.
\<close>

theorem extract_decompresses_only_zstd:
  assumes "archive_fits a"
  shows "(a_compression a = compression_value COMPRESS_LZMA \<longrightarrow>
            snd (extractArchive Z (Some (archive_stream a)) verbose) = Returned \<and>
            written (fst (extractArchive Z (Some (archive_stream a)) verbose)) =
              map (\<lambda>e. (e_name e, e_payload e)) (a_entries a))
       \<and> (a_compression a \<noteq> compression_value COMPRESS_ZSTD \<longrightarrow>
            extractArchive Z (Some (archive_stream a)) verbose =
              extractArchive Z' (Some (archive_stream a)) verbose \<and>
            written (fst (extractArchive Z (Some (archive_stream a)) verbose)) =
              map (\<lambda>e. (e_name e, e_payload e)) (a_entries a))
       \<and> (a_compression a = compression_value COMPRESS_ZSTD \<and>
            list_all (\<lambda>e. \<not> isl (decompressZSTD Z (e_payload e) (unat (e_original_size e))))
              (a_entries a) \<longrightarrow>
            snd (extractArchive Z (Some (archive_stream a)) verbose) = Returned \<and>
            written (fst (extractArchive Z (Some (archive_stream a)) verbose)) =
              map (\<lambda>e. (e_name e,
                         projr (decompressZSTD Z (e_payload e) (unat (e_original_size e)))))
                (a_entries a))"
proof -
  have pass: "extractArchive Y (Some (archive_stream a)) verbose =
        (\<lparr>inp = advance (length (archive_stream a)) (open_stream (archive_stream a)),
          stdout = (if verbose then header_lines a @ map extracting_line (a_entries a) else []),
          written = map (\<lambda>e. (e_name e, e_payload e)) (a_entries a)\<rparr>, Returned)"
    if "a_compression a \<noteq> compression_value COMPRESS_ZSTD" for Y
    using extractArchive_stream [OF assms, of Y "[]" verbose] that
    by (simp add: decodes_pass_through list_all_iff)
  have zstd: "snd (extractArchive Z (Some (archive_stream a)) verbose) = Returned \<and>
        written (fst (extractArchive Z (Some (archive_stream a)) verbose)) =
          map (\<lambda>e. (e_name e,
                     projr (decompressZSTD Z (e_payload e) (unat (e_original_size e)))))
            (a_entries a)"
    if c: "a_compression a = compression_value COMPRESS_ZSTD"
      and ok: "list_all (\<lambda>e. \<not> isl (decompressZSTD Z (e_payload e) (unat (e_original_size e))))
                 (a_entries a)"
  proof -
    have d: "decodes Z (a_compression a) e \<and>
             decoded Z (a_compression a) e =
               projr (decompressZSTD Z (e_payload e) (unat (e_original_size e)))"
      if "e \<in> set (a_entries a)" for e
      using ok that c
      by (cases "decompressZSTD Z (e_payload e) (unat (e_original_size e))")
        (auto simp: list_all_iff decodes_def decoded_def decode_data_def)
    have "list_all (decodes Z (a_compression a)) (a_entries a)"
      using d by (simp add: list_all_iff)
    from extractArchive_stream [OF assms this, of "[]" verbose] d
    show ?thesis by simp
  qed
  show ?thesis
    using pass zstd by simp
qed

theorem extract_decompresses_only_zstd_witness:
  "archive_fits (example_archive 1)
   \<and> a_compression (example_archive 1) = compression_value COMPRESS_LZMA
   \<and> written (fst (extractArchive zstd_stored (Some (archive_stream (example_archive 1))) False))
       = [(''a.txt'', [1, 2, 3]), (''b'', [])]
   \<and> archive_fits (example_archive 2)
   \<and> a_compression (example_archive 2) = compression_value COMPRESS_ZSTD
   \<and> list_all (\<lambda>e. \<not> isl (decompressZSTD zstd_stored (e_payload e) (unat (e_original_size e))))
        (a_entries (example_archive 2))
   \<and> written (fst (extractArchive zstd_stored (Some (archive_stream (example_archive 2))) False))
       = [(''a.txt'', [1, 2, 3]), (''b'', [])]"
proof -
  have f: "archive_fits (example_archive c)" for c
    by (simp add: example_archive_def archive_fits_def entry_fits_def)
  show ?thesis
    using extract_decompresses_only_zstd [OF f, of 1 zstd_stored False zstd_stored]
      extract_decompresses_only_zstd [OF f, of 2 zstd_stored False zstd_stored] f
    by (simp add: example_archive_def zstd_stored_def decompressZSTD_def)
qed

subsection \<open>Listing against extraction\<close>

text \<open>
  Claim C5. For every well-formed archive, \<open>listArchiveContents\<close> (which has no codec
  among its parameters) returns with its position at the end of the stream, having
  skipped every payload, and the name, original size and compressed size it reports
  for each entry are, in the same order, those that \<open>extractArchive\<close> reads and
  prints for the same stream.
\<close>

theorem listing_matches_extraction:
  assumes "well_formed Z a"
  shows "snd (listArchiveContents (Some (archive_stream a))) = Returned
       \<and> pos (l_inp (fst (listArchiveContents (Some (archive_stream a)))))
           = length (archive_stream a)
       \<and> snd (extractArchive Z (Some (archive_stream a)) True) = Returned
       \<and> triples (l_stdout (fst (listArchiveContents (Some (archive_stream a)))))
           = map entry_triple (a_entries a)
       \<and> triples (stdout (fst (extractArchive Z (Some (archive_stream a)) True)))
           = triples (l_stdout (fst (listArchiveContents (Some (archive_stream a)))))"
proof -
  from assms have fits: "archive_fits a"
    and dec: "list_all (decodes Z (a_compression a)) (a_entries a)"
    by (simp_all add: well_formed_def)
  show ?thesis
    using listArchiveContents_stream [OF fits, of "[]"]
      extractArchive_stream [OF fits dec, of "[]" True]
    by (simp add: triples_listed triples_extracting advance_def open_stream_def)
qed

theorem listing_matches_extraction_witness:
  "well_formed zstd_stored (example_archive 2)
   \<and> snd (listArchiveContents (Some (archive_stream (example_archive 2)))) = Returned
   \<and> triples (stdout (fst (extractArchive zstd_stored
        (Some (archive_stream (example_archive 2))) True)))
       = [(''a.txt'', 3, 3), (''b'', 0, 0)]"
proof -
  have wf: "well_formed zstd_stored (example_archive 2)"
    by (simp add: well_formed_def example_archive_def archive_fits_def entry_fits_def
        decodes_def decode_data_def decompressZSTD_def zstd_stored_def)
  have ts: "map entry_triple (a_entries (example_archive 2)) = [(''a.txt'', 3, 3), (''b'', 0, 0)]"
    by (simp add: example_archive_def entry_triple_def)
  from listing_matches_extraction [OF wf] show ?thesis
    using wf ts by simp
qed

lemma le_value_bound: "le_value xs < 256 ^ length xs"
proof (induction xs)
  case Nil
  then show ?case by simp
next
  case (Cons b xs)
  have "unat b < 256"
    using unsigned_less [of b, where ?'a = nat] by simp
  with Cons show ?case by simp
qed

lemma le_bytes_le_value: "le_bytes (length xs) (le_value xs) = xs"
proof (induction xs)
  case Nil
  then show ?case by simp
next
  case (Cons b xs)
  have b: "unat b < 256"
    using unsigned_less [of b, where ?'a = nat] by simp
  then have "(unat b + 256 * le_value xs) mod 256 = unat b"
    and "(unat b + 256 * le_value xs) div 256 = le_value xs"
    by simp_all
  with Cons show ?case by simp
qed

lemma put_u32_of_value:
  assumes "length xs = 4"
  shows "put_u32 (of_nat (le_value xs)) = xs"
proof -
  have "le_value xs < 2 ^ 32"
    using le_value_bound [of xs] assms by simp
  then have "unat (of_nat (le_value xs) :: 32 word) = le_value xs"
    by (simp add: unat_of_nat)
  then show ?thesis
    using le_bytes_le_value [of xs] assms by (simp add: put_u32_def)
qed

lemma le_bytes_numeral:
  "le_bytes (numeral k) v = of_nat (v mod 256) # le_bytes (pred_numeral k) (v div 256)"
proof -
  have "numeral k = Suc (pred_numeral k)"
    by (rule numeral_eq_Suc)
  then show ?thesis
    by (simp only: le_bytes.simps)
qed

lemma signature_bytes: "put_u32 MAKAKA_SIGNATURE = [0x41, 0x4B, 0x4B, 0x4D]"
  by (simp add: put_u32_def MAKAKA_SIGNATURE_def le_bytes_numeral)

lemma read_u32_open:
  assumes "4 \<le> length bytes"
  shows "read_u32 (open_stream bytes) =
           (Some (of_nat (le_value (take 4 bytes))),
            \<lparr>content = bytes, pos = 4, failbit = False\<rparr>)"
  using assms
  by (simp add: read_u32_def read_scalar_def read_def open_stream_def)

subsection \<open>Rejecting a foreign signature\<close>

text \<open>
  Claim C6. For every stream whose first four bytes are not the signature, both
  readers throw the "Invalid file format" error straight after reading those four
  bytes: nothing is printed, no file is written, and the stream stands at position 4.
\<close>

theorem bad_signature_rejected:
  assumes "4 \<le> length bytes" and "take 4 bytes \<noteq> put_u32 MAKAKA_SIGNATURE"
  shows "extractArchive Z (Some bytes) verbose =
           (\<lparr>inp = \<lparr>content = bytes, pos = 4, failbit = False\<rparr>, stdout = [], written = []\<rparr>,
            Thrown InvalidFileFormat)
       \<and> listArchiveContents (Some bytes) =
           (\<lparr>l_inp = \<lparr>content = bytes, pos = 4, failbit = False\<rparr>, l_stdout = []\<rparr>,
            Thrown InvalidFileFormat)"
proof -
  have "(of_nat (le_value (take 4 bytes)) :: 32 word) \<noteq> MAKAKA_SIGNATURE"
  proof
    assume "(of_nat (le_value (take 4 bytes)) :: 32 word) = MAKAKA_SIGNATURE"
    then have "put_u32 MAKAKA_SIGNATURE = take 4 bytes"
      using put_u32_of_value [of "take 4 bytes"] assms(1) by simp
    with assms(2) show False by simp
  qed
  then show ?thesis
    by (simp add: extractArchive_def listArchiveContents_def read_u32_open [OF assms(1)]
        Let_def)
qed

theorem bad_signature_rejected_witness:
  "4 \<le> length [0x50, 0x4B, 0x03, 0x04, 0x14 :: byte]
   \<and> take 4 [0x50, 0x4B, 0x03, 0x04, 0x14 :: byte] \<noteq> put_u32 MAKAKA_SIGNATURE
   \<and> snd (extractArchive zstd_stored (Some [0x50, 0x4B, 0x03, 0x04, 0x14]) True)
       = Thrown InvalidFileFormat
   \<and> written (fst (extractArchive zstd_stored (Some [0x50, 0x4B, 0x03, 0x04, 0x14]) True)) = []
   \<and> snd (listArchiveContents (Some [0x50, 0x4B, 0x03, 0x04, 0x14])) = Thrown InvalidFileFormat
   \<and> l_stdout (fst (listArchiveContents (Some [0x50, 0x4B, 0x03, 0x04, 0x14]))) = []"
proof -
  have h1: "4 \<le> length [0x50, 0x4B, 0x03, 0x04, 0x14 :: byte]" by simp
  have h2: "take 4 [0x50, 0x4B, 0x03, 0x04, 0x14 :: byte] \<noteq> put_u32 MAKAKA_SIGNATURE"
    by (simp add: signature_bytes)
  show ?thesis
    using bad_signature_rejected [OF h1 h2, of zstd_stored True] h1 h2 by simp
qed

lemma example_archive_fits:
  "archive_fits (example_archive c)"
  by (simp add: example_archive_def archive_fits_def entry_fits_def)

subsection \<open>Compression tags the readers do not know\<close>

text \<open>
  Claim C10, as stated, fails for the tag value 1: the listing names it LZMA, not
  None.
\<close>

theorem listing_names_lzma_counterexample:
  "a_compression (example_archive 1) \<noteq> compression_value COMPRESS_ZSTD
   \<and> snd (listArchiveContents (Some (archive_stream (example_archive 1)))) = Returned
   \<and> l_stdout (fst (listArchiveContents (Some (archive_stream (example_archive 1)))))
       = [VersionLine 1 0, CompressionLine ''LZMA'', CountLine 2,
          ListedLine ''a.txt'' 3 3, ListedLine ''b'' 0 0]
   \<and> CompressionLine ''None''
       \<notin> set (l_stdout (fst (listArchiveContents (Some (archive_stream (example_archive 1))))))"
proof -
  have "header_lines (example_archive 1) @ map listed_line (a_entries (example_archive 1))
        = [VersionLine 1 0, CompressionLine ''LZMA'', CountLine 2,
           ListedLine ''a.txt'' 3 3, ListedLine ''b'' 0 0]"
    by (simp add: example_archive_def header_lines_def version_line_def MAKAKA_VERSION_def
        compression_name_def listed_line_def)
  then show ?thesis
    using listArchiveContents_stream [OF example_archive_fits, of 1 "[]"]
    by (simp add: example_archive_def)
qed

text \<open>
  Claim C10, amended. For every archive whose compression tag is any value other
  than 2, in or outside the defined set, both readers accept the stream without
  checking the tag: \<open>extractArchive\<close> returns having written each stored payload
  unchanged, and \<open>listArchiveContents\<close> returns, naming the compression LZMA when
  the tag is 1 and None for every other such value.
\<close>

theorem unvalidated_codec_accepted:
  assumes "archive_fits a" and "a_compression a \<noteq> compression_value COMPRESS_ZSTD"
  shows "snd (extractArchive Z (Some (archive_stream a)) verbose) = Returned
       \<and> written (fst (extractArchive Z (Some (archive_stream a)) verbose))
           = map (\<lambda>e. (e_name e, e_payload e)) (a_entries a)
       \<and> snd (listArchiveContents (Some (archive_stream a))) = Returned
       \<and> l_stdout (fst (listArchiveContents (Some (archive_stream a))))
           = [version_line (a_version a),
              CompressionLine (if a_compression a = compression_value COMPRESS_LZMA
                               then ''LZMA'' else ''None''),
              CountLine (of_nat (length (a_entries a)))]
             @ map listed_line (a_entries a)"
proof -
  have "list_all (decodes Z (a_compression a)) (a_entries a)"
    using assms(2) by (simp add: list_all_iff decodes_pass_through)
  from extractArchive_stream [OF assms(1) this, of "[]" verbose]
    listArchiveContents_stream [OF assms(1), of "[]"] assms(2)
  show ?thesis
    by (simp add: decodes_pass_through header_lines_def compression_name_def)
qed

theorem unvalidated_codec_accepted_witness:
  "archive_fits (example_archive 7)
   \<and> a_compression (example_archive 7) \<noteq> compression_value COMPRESS_ZSTD
   \<and> snd (extractArchive zstd_stored (Some (archive_stream (example_archive 7))) False) = Returned
   \<and> written (fst (extractArchive zstd_stored (Some (archive_stream (example_archive 7))) False))
       = [(''a.txt'', [1, 2, 3]), (''b'', [])]
   \<and> snd (listArchiveContents (Some (archive_stream (example_archive 7)))) = Returned
   \<and> l_stdout (fst (listArchiveContents (Some (archive_stream (example_archive 7))))) ! 1
       = CompressionLine ''None''"
proof -
  have f: "archive_fits (example_archive 7)"
    by (simp add: example_archive_def archive_fits_def entry_fits_def)
  have c: "a_compression (example_archive 7) \<noteq> compression_value COMPRESS_ZSTD"
    by (simp add: example_archive_def)
  have es: "a_entries (example_archive 7)
      = [\<lparr>e_name = ''a.txt'', e_original_size = 3, e_payload = [1, 2, 3]\<rparr>,
         \<lparr>e_name = ''b'', e_original_size = 0, e_payload = []\<rparr>]"
    and cv: "a_compression (example_archive 7) = 7"
    by (simp_all add: example_archive_def)
  from unvalidated_codec_accepted [OF f c, of zstd_stored False] show ?thesis
    using f c by (simp add: es cv)
qed

lemma read_header:
  assumes "bytes = header_bytes v c n @ rest"
  shows "read_u32 (open_stream bytes) = (Some MAKAKA_SIGNATURE, advance 4 (open_stream bytes))"
    and "read_u16 (advance 4 (open_stream bytes)) = (Some v, advance 6 (open_stream bytes))"
    and "read_u16 (advance 6 (open_stream bytes)) = (Some c, advance 8 (open_stream bytes))"
    and "read_u32 (advance 8 (open_stream bytes)) = (Some n, advance 12 (open_stream bytes))"
    and "at (advance 12 (open_stream bytes)) rest"
proof -
  let ?s0 = "open_stream bytes"
  have a0: "at ?s0 (put_u32 MAKAKA_SIGNATURE @ (put_u16 v @ put_u16 c @ put_u32 n @ rest))"
    using at_open [of bytes] assms by (simp add: header_bytes_def)
  show r1: "read_u32 ?s0 = (Some MAKAKA_SIGNATURE, advance 4 ?s0)"
    using at_read_u32 [OF a0] by simp
  have a1: "at (advance 4 ?s0) (put_u16 v @ (put_u16 c @ put_u32 n @ rest))"
    using at_read_u32 [OF a0] by simp
  show r2: "read_u16 (advance 4 ?s0) = (Some v, advance 6 ?s0)"
    using at_read_u16 [OF a1] by (simp add: advance_advance)
  have a2: "at (advance 6 ?s0) (put_u16 c @ (put_u32 n @ rest))"
    using at_read_u16 [OF a1] by (simp add: advance_advance)
  show r3: "read_u16 (advance 6 ?s0) = (Some c, advance 8 ?s0)"
    using at_read_u16 [OF a2] by (simp add: advance_advance)
  have a3: "at (advance 8 ?s0) (put_u32 n @ rest)"
    using at_read_u16 [OF a2] by (simp add: advance_advance)
  show "read_u32 (advance 8 ?s0) = (Some n, advance 12 ?s0)"
    using at_read_u32 [OF a3] by (simp add: advance_advance)
  show "at (advance 12 ?s0) rest"
    using at_read_u32 [OF a3] by (simp add: advance_advance)
qed

lemma extractArchive_header:
  assumes "bytes = header_bytes v c n @ rest"
  shows "extractArchive Z (Some bytes) verbose =
           extract_loop Z (Some c) verbose (unat n)
             \<lparr>inp = advance 12 (open_stream bytes),
              stdout = (if verbose
                        then [version_line v, CompressionLine (compression_name c), CountLine n]
                        else []),
              written = []\<rparr>"
  unfolding extractArchive_def
  by (simp add: Let_def read_header(1-4) [OF assms])

lemma listArchiveContents_header:
  assumes "bytes = header_bytes v c n @ rest"
  shows "listArchiveContents (Some bytes) =
           list_loop (unat n)
             \<lparr>l_inp = advance 12 (open_stream bytes),
              l_stdout = [version_line v, CompressionLine (compression_name c), CountLine n]\<rparr>"
  unfolding listArchiveContents_def
  by (simp add: Let_def read_header(1-4) [OF assms])

lemma read_u32_at_end:
  assumes "at s []"
  shows "fst (read_u32 s) = None"
  using assms by (simp add: at_def read_u32_def read_scalar_def read_def)

lemma extract_entry_at_end:
  assumes "at (inp st) []"
  shows "snd (extract_entry Z c verbose st) = Indeterminate"
    and "written (fst (extract_entry Z c verbose st)) = written st"
  using read_u32_at_end [OF assms]
  by (cases "read_u32 (inp st)"; simp add: extract_entry_def)+

lemma list_entry_at_end:
  assumes "at (l_inp st) []"
  shows "snd (list_entry st) = Indeterminate"
    and "l_stdout (fst (list_entry st)) = l_stdout st"
  using read_u32_at_end [OF assms]
  by (cases "read_u32 (l_inp st)"; simp add: list_entry_def)+

lemma createArchive_loop_all_read:
  assumes "\<forall>p\<in>set files. fs p = Some (data p)"
    and "\<forall>p\<in>set files. compress_data L Z compression (data p) = Inr (packed p)"
  shows "createArchive_loop L Z fs compression files =
           (concat (map (\<lambda>p. stored_entry (packed_entry p (data p) (packed p))) files),
            Returned)"
  using assms
  by (induction files) (simp_all add: stored_entry_def packed_entry_def)

lemma createArchive_all_read:
  assumes "\<forall>p\<in>set files. fs p = Some (data p)"
    and "\<forall>p\<in>set files. compress_data L Z compression (data p) = Inr (packed p)"
  shows "createArchive L Z fs files True compression =
           (archive_stream
              \<lparr>a_version = MAKAKA_VERSION, a_compression = compression_value compression,
               a_entries = map (\<lambda>p. packed_entry p (data p) (packed p)) files\<rparr>,
            Returned)"
  by (simp add: createArchive_def createArchive_loop_all_read [OF assms] archive_stream_def
      comp_def)

lemma compress_data_round_trip:
  assumes "compression = COMPRESS_NONE \<or> compression = COMPRESS_ZSTD"
    and "compression = COMPRESS_ZSTD \<longrightarrow> zstd_round_trip Z d"
    and "length d < 2 ^ 63"
  shows "\<exists>c. compress_data L Z compression d = Inr c \<and> length c < 2 ^ 63 \<and>
             decode_data Z (compression_value compression) c (Some (of_nat (length d))) = Inr d"
proof (cases compression)
  case COMPRESS_NONE
  then show ?thesis
    using assms(3) by (simp add: decode_data_def)
next
  case COMPRESS_LZMA
  with assms(1) show ?thesis by simp
next
  case COMPRESS_ZSTD
  with assms(2) obtain c where c: "ZSTD_compress Z (ZSTD_compressBound Z (length d)) d = Inr c"
    and len: "length c < 2 ^ 63" and undo: "ZSTD_decompress Z (length d) c = Inr d"
    by (auto simp: zstd_round_trip_def split: sum.splits)
  have "unat (of_nat (length d) :: 64 word) = length d"
    using assms(3) by (simp add: unat_of_nat)
  then show ?thesis
    using COMPRESS_ZSTD c len undo
    by (simp add: compressWithZSTD_def decode_data_def decompressZSTD_def)
qed

subsection \<open>Extraction after creation\<close>

text \<open>
  Claim C1. For every list of input paths that can all be read, packed with the codec
  None or ZSTD, \<open>createArchive\<close> returns, and \<open>extractArchive\<close> on the archive it
  wrote returns having written, for each input path in the order given, a file of
  that name whose bytes are exactly the input file's bytes. The lengths are taken to
  fit their fields (fewer than \<open>2^32\<close> files, names shorter than \<open>2^32\<close>, files
  shorter than \<open>2^63\<close>), and for ZSTD the library is taken to invert its own
  compression of each file.
\<close>

theorem extract_after_create_round_trip:
  assumes codec: "compression = COMPRESS_NONE \<or> compression = COMPRESS_ZSTD"
    and readable: "\<forall>p\<in>set files. fs p = Some (data p)"
    and count: "length files < 2 ^ 32"
    and sizes: "\<forall>p\<in>set files. length p < 2 ^ 32 \<and> length (data p) < 2 ^ 63"
    and lib: "compression = COMPRESS_ZSTD \<longrightarrow> (\<forall>p\<in>set files. zstd_round_trip Z (data p))"
  shows "snd (createArchive L Z fs files True compression) = Returned
       \<and> snd (extractArchive Z (Some (fst (createArchive L Z fs files True compression)))
               verbose) = Returned
       \<and> written (fst (extractArchive Z
               (Some (fst (createArchive L Z fs files True compression))) verbose))
           = map (\<lambda>p. (p, data p)) files"
proof -
  define packed where "packed p = projr (compress_data L Z compression (data p))" for p
  have each: "compress_data L Z compression (data p) = Inr (packed p)
        \<and> length (packed p) < 2 ^ 63
        \<and> decode_data Z (compression_value compression) (packed p)
            (Some (of_nat (length (data p)))) = Inr (data p)"
    if "p \<in> set files" for p
  proof -
    from that sizes lib have "compression = COMPRESS_ZSTD \<longrightarrow> zstd_round_trip Z (data p)"
      and "length (data p) < 2 ^ 63"
      by simp_all
    from compress_data_round_trip [OF codec this, of L] show ?thesis
      by (auto simp: packed_def)
  qed
  let ?a = "\<lparr>a_version = MAKAKA_VERSION, a_compression = compression_value compression,
             a_entries = map (\<lambda>p. packed_entry p (data p) (packed p)) files\<rparr>"
  have created: "createArchive L Z fs files True compression = (archive_stream ?a, Returned)"
    using each by (intro createArchive_all_read [OF readable]) simp
  have fits: "archive_fits ?a"
    using count sizes each
    by (simp add: archive_fits_def list_all_iff entry_fits_def packed_entry_def)
  have dec: "list_all (decodes Z (a_compression ?a)) (a_entries ?a)"
    using each by (simp add: list_all_iff decodes_def packed_entry_def)
  have out: "map (\<lambda>e. (e_name e, decoded Z (a_compression ?a) e)) (a_entries ?a)
               = map (\<lambda>p. (p, data p)) files"
    using each by (simp add: decoded_def packed_entry_def comp_def)
  from extractArchive_stream [OF fits dec, of "[]" verbose] show ?thesis
    by (simp add: created out del: archive.simps)
qed

theorem extract_after_create_round_trip_witness:
  "example_files ''valid.txt'' = Some (example_data ''valid.txt'')
   \<and> example_files ''empty.bin'' = Some (example_data ''empty.bin'')
   \<and> zstd_round_trip zstd_stored (example_data ''valid.txt'')
   \<and> zstd_round_trip zstd_stored (example_data ''empty.bin'')
   \<and> snd (createArchive lzma_unavailable zstd_stored example_files
             [''valid.txt'', ''empty.bin''] True COMPRESS_ZSTD) = Returned
   \<and> written (fst (extractArchive zstd_stored
         (Some (fst (createArchive lzma_unavailable zstd_stored example_files
                       [''valid.txt'', ''empty.bin''] True COMPRESS_ZSTD))) False))
       = [(''valid.txt'', [0x68, 0x69, 0x0A]), (''empty.bin'', [])]"
proof -
  have h1: "COMPRESS_ZSTD = COMPRESS_NONE \<or> COMPRESS_ZSTD = COMPRESS_ZSTD"
    by simp
  have h2: "\<forall>p\<in>set [''valid.txt'', ''empty.bin'']. example_files p = Some (example_data p)"
    by (simp add: example_files_def example_data_def)
  have h3: "length [''valid.txt'', ''empty.bin''] < 2 ^ 32"
    by simp
  have h4: "\<forall>p\<in>set [''valid.txt'', ''empty.bin''].
              length p < 2 ^ 32 \<and> length (example_data p) < 2 ^ 63"
    by (simp add: example_files_def example_data_def)
  have h5: "\<forall>p\<in>set [''valid.txt'', ''empty.bin'']. zstd_round_trip zstd_stored (example_data p)"
    by (simp add: example_files_def example_data_def zstd_round_trip_def zstd_stored_def)
  have d: "map (\<lambda>p. (p, example_data p)) [''valid.txt'', ''empty.bin'']
             = [(''valid.txt'', [0x68, 0x69, 0x0A]), (''empty.bin'', [])]"
    by (simp add: example_files_def example_data_def)
  from extract_after_create_round_trip [OF h1 h2 h3 h4, of zstd_stored lzma_unavailable False]
    h5
  show ?thesis
    using h2 d by simp
qed

lemma createArchive_loop_none:
  assumes "\<forall>p\<in>set files. length p < 2 ^ 32 \<and> (\<forall>d. fs p = Some d \<longrightarrow> length d < 2 ^ 64)"
  shows "createArchive_loop L Z fs COMPRESS_NONE files =
           (concat (List.map_filter
              (\<lambda>p. map_option
                 (\<lambda>d. put_u32 (of_nat (length p)) @ string_bytes p
                      @ put_u64 (of_nat (length d)) @ put_u64 (of_nat (length d)) @ d)
                 (fs p)) files), Returned)"
  using assms
proof (induction files)
  case Nil
  then show ?case by simp
next
  case (Cons p files)
  then have rest: "createArchive_loop L Z fs COMPRESS_NONE files =
           (concat (List.map_filter
              (\<lambda>p. map_option
                 (\<lambda>d. put_u32 (of_nat (length p)) @ string_bytes p
                      @ put_u64 (of_nat (length d)) @ put_u64 (of_nat (length d)) @ d)
                 (fs p)) files), Returned)"
    by simp
  show ?case
  proof (cases "fs p")
    case None
    then show ?thesis by (simp add: rest)
  next
    case (Some d)
    with Cons.prems have "length p < 2 ^ 32" and "length d < 2 ^ 64"
      by simp_all
    then have "unat (of_nat (length p) :: 32 word) = length p"
      and "unat (of_nat (length d) :: 64 word) = length d"
      by (simp_all add: unat_of_nat)
    then show ?thesis
      using Some by (simp add: rest entry_bytes_def string_bytes_def)
  qed
qed

lemma extract_loop_at_end:
  assumes "at (inp st) []"
  shows "snd (extract_loop Z c verbose m st) = (if m = 0 then Returned else Indeterminate)"
    and "written (fst (extract_loop Z c verbose m st)) = written st"
proof -
  have "snd (extract_loop Z c verbose m st) = (if m = 0 then Returned else Indeterminate)
      \<and> written (fst (extract_loop Z c verbose m st)) = written st"
  proof (cases m)
    case 0
    then show ?thesis by simp
  next
    case (Suc k)
    show ?thesis
      using extract_entry_at_end [OF assms, of Z c verbose] Suc
      by (cases "extract_entry Z c verbose st") simp
  qed
  then show "snd (extract_loop Z c verbose m st) = (if m = 0 then Returned else Indeterminate)"
    and "written (fst (extract_loop Z c verbose m st)) = written st"
    by simp_all
qed

lemma list_loop_at_end:
  assumes "at (l_inp st) []"
  shows "snd (list_loop m st) = (if m = 0 then Returned else Indeterminate)"
    and "l_stdout (fst (list_loop m st)) = l_stdout st"
proof -
  have "snd (list_loop m st) = (if m = 0 then Returned else Indeterminate)
      \<and> l_stdout (fst (list_loop m st)) = l_stdout st"
  proof (cases m)
    case 0
    then show ?thesis by simp
  next
    case (Suc k)
    show ?thesis
      using list_entry_at_end [OF assms] Suc
      by (cases "list_entry st") simp
  qed
  then show "snd (list_loop m st) = (if m = 0 then Returned else Indeterminate)"
    and "l_stdout (fst (list_loop m st)) = l_stdout st"
    by simp_all
qed

lemma counted_stream:
  assumes fits: "list_all entry_fits es" and dec: "list_all (decodes Z c) es"
    and n: "unat n = length es + m"
    and bytes: "bytes = header_bytes v c n @ (concat (map stored_entry es) @ [])"
  shows "snd (extractArchive Z (Some bytes) verbose)
           = (if m = 0 then Returned else Indeterminate)"
    and "written (fst (extractArchive Z (Some bytes) verbose))
           = map (\<lambda>e. (e_name e, decoded Z c e)) es"
    and "snd (listArchiveContents (Some bytes)) = (if m = 0 then Returned else Indeterminate)"
    and "l_stdout (fst (listArchiveContents (Some bytes)))
           = [version_line v, CompressionLine (compression_name c), CountLine n]
             @ map listed_line es"
proof -
  let ?x0 = "\<lparr>inp = advance 12 (open_stream bytes),
        stdout = (if verbose
                  then [version_line v, CompressionLine (compression_name c), CountLine n]
                  else []),
        written = []\<rparr>"
  let ?x1 = "?x0\<lparr>inp := advance (length (concat (map stored_entry es))) (inp ?x0),
        stdout := stdout ?x0 @ (if verbose then map extracting_line es else []),
        written := written ?x0 @ map (\<lambda>e. (e_name e, decoded Z c e)) es\<rparr>"
  have at0: "at (inp ?x0) (concat (map stored_entry es) @ [])"
    using read_header(5) [OF bytes] by simp
  have at1: "at (inp ?x1) []"
    using at_advance [OF at0] by simp
  have "extractArchive Z (Some bytes) verbose =
          extract_loop Z (Some c) verbose (length es + m) ?x0"
    by (simp add: extractArchive_header [OF bytes] n)
  also have "\<dots> = extract_loop Z (Some c) verbose m ?x1"
    by (rule extract_loop_stored [OF at0 fits dec])
  finally have x: "extractArchive Z (Some bytes) verbose
                     = extract_loop Z (Some c) verbose m ?x1" .
  show "snd (extractArchive Z (Some bytes) verbose)
          = (if m = 0 then Returned else Indeterminate)"
    unfolding x by (rule extract_loop_at_end(1) [OF at1])
  show "written (fst (extractArchive Z (Some bytes) verbose))
           = map (\<lambda>e. (e_name e, decoded Z c e)) es"
    unfolding x extract_loop_at_end(2) [OF at1] by simp
  let ?l0 = "\<lparr>l_inp = advance 12 (open_stream bytes),
        l_stdout = [version_line v, CompressionLine (compression_name c), CountLine n]\<rparr>"
  let ?l1 = "?l0\<lparr>l_inp := advance (length (concat (map stored_entry es))) (l_inp ?l0),
        l_stdout := l_stdout ?l0 @ map listed_line es\<rparr>"
  have lat0: "at (l_inp ?l0) (concat (map stored_entry es) @ [])"
    using read_header(5) [OF bytes] by simp
  have lat1: "at (l_inp ?l1) []"
    using at_advance [OF lat0] by simp
  have "listArchiveContents (Some bytes) = list_loop (length es + m) ?l0"
    by (simp add: listArchiveContents_header [OF bytes] n)
  also have "\<dots> = list_loop m ?l1"
    by (rule list_loop_stored [OF lat0 fits])
  finally have l: "listArchiveContents (Some bytes) = list_loop m ?l1" .
  show "snd (listArchiveContents (Some bytes)) = (if m = 0 then Returned else Indeterminate)"
    unfolding l by (rule list_loop_at_end(1) [OF lat1])
  show "l_stdout (fst (listArchiveContents (Some bytes)))
           = [version_line v, CompressionLine (compression_name c), CountLine n]
             @ map listed_line es"
    unfolding l list_loop_at_end(2) [OF lat1] by simp
qed

lemma triples_of_listing:
  "triples ([version_line v, CompressionLine s, CountLine n] @ map listed_line es)
     = map entry_triple es"
  by (induction es)
    (simp_all add: triples_def map_filter_def version_line_def listed_line_def
      entry_triple_def)

lemma createArchive_loop_none_entries:
  "createArchive_loop L Z fs COMPRESS_NONE files =
     (concat (map stored_entry
        (List.map_filter (\<lambda>p. map_option (\<lambda>d. packed_entry p d d) (fs p)) files)),
      Returned)"
proof (induction files)
  case Nil
  then show ?case by simp
next
  case (Cons p files)
  then show ?case
    by (cases "fs p") (simp_all add: stored_entry_def packed_entry_def)
qed

lemma none_entries_facts:
  fixes fs :: "string \<Rightarrow> byte list option"
  defines "es \<equiv> \<lambda>files. List.map_filter (\<lambda>p. map_option (\<lambda>d. packed_entry p d d) (fs p)) files"
  shows "length (es files) \<le> length files"
    and "length (es files) = length files \<longleftrightarrow> list_all (\<lambda>p. fs p \<noteq> None) files"
    and "map (\<lambda>e. (e_name e, e_payload e)) (es files)
           = List.map_filter (\<lambda>p. map_option (\<lambda>d. (p, d)) (fs p)) files"
    and "map entry_triple (es files)
           = List.map_filter
               (\<lambda>p. map_option (\<lambda>d. (p, of_nat (length d), of_nat (length d))) (fs p)) files"
    and "(\<forall>p\<in>set files. length p < 2 ^ 32 \<and> (\<forall>d. fs p = Some d \<longrightarrow> length d < 2 ^ 63))
           \<Longrightarrow> list_all entry_fits (es files)"
proof -
  show le: "length (es files) \<le> length files" for files
    by (induction files) (auto simp: es_def split: option.splits)
  show "length (es files) = length files \<longleftrightarrow> list_all (\<lambda>p. fs p \<noteq> None) files"
  proof (induction files)
    case Nil
    then show ?case by (simp add: es_def)
  next
    case (Cons p files)
    have "length (es files) \<le> length files"
      by (rule le)
    with Cons show ?case
      by (cases "fs p") (auto simp: es_def)
  qed
  show "map (\<lambda>e. (e_name e, e_payload e)) (es files)
           = List.map_filter (\<lambda>p. map_option (\<lambda>d. (p, d)) (fs p)) files"
    by (induction files) (auto simp: es_def packed_entry_def split: option.splits)
  show "map entry_triple (es files)
           = List.map_filter
               (\<lambda>p. map_option (\<lambda>d. (p, of_nat (length d), of_nat (length d))) (fs p)) files"
    by (induction files)
      (auto simp: es_def packed_entry_def entry_triple_def split: option.splits)
  show "list_all entry_fits (es files)"
    if "\<forall>p\<in>set files. length p < 2 ^ 32 \<and> (\<forall>d. fs p = Some d \<longrightarrow> length d < 2 ^ 63)"
    using that
    by (induction files)
      (auto simp: es_def packed_entry_def entry_fits_def split: option.splits)
qed

subsection \<open>The codec None\<close>

text \<open>
  Claim C9. Packed with the codec None, every file that can be read is stored as its
  name length, its name, its length twice (as original size and as compressed size)
  and its raw bytes. A file of no bytes is stored with both sizes 0 and no payload,
  and extracting that archive writes an empty file of that name. In the other
  direction the codec is the identity as well: extracting the archive writes, for
  every file that was packed and in the same order, a file of that name holding the
  file's raw bytes, and the listing reports the file's length as both its original
  and its compressed size. The extraction returns normally when every path could be
  read.
\<close>

theorem none_codec_stores_raw_bytes:
  assumes "\<forall>p\<in>set files. length p < 2 ^ 32 \<and> (\<forall>d. fs p = Some d \<longrightarrow> length d < 2 ^ 64)"
  shows "createArchive L Z fs files True COMPRESS_NONE =
           (header_bytes MAKAKA_VERSION 0 (of_nat (length files))
            @ concat (List.map_filter
                (\<lambda>p. map_option
                   (\<lambda>d. put_u32 (of_nat (length p)) @ string_bytes p
                        @ put_u64 (of_nat (length d)) @ put_u64 (of_nat (length d)) @ d)
                   (fs p)) files), Returned)
       \<and> (\<forall>p\<in>set files. fs p = Some [] \<longrightarrow>
            createArchive L Z fs [p] True COMPRESS_NONE =
              (header_bytes MAKAKA_VERSION 0 1
               @ put_u32 (of_nat (length p)) @ string_bytes p @ put_u64 0 @ put_u64 0,
               Returned)
            \<and> snd (extractArchive Z
                  (Some (fst (createArchive L Z fs [p] True COMPRESS_NONE))) verbose)
                = Returned
            \<and> written (fst (extractArchive Z
                  (Some (fst (createArchive L Z fs [p] True COMPRESS_NONE))) verbose))
                = [(p, [])])
       \<and> (length files < 2 ^ 32
            \<and> (\<forall>p\<in>set files. \<forall>d. fs p = Some d \<longrightarrow> length d < 2 ^ 63) \<longrightarrow>
            written (fst (extractArchive Z
                  (Some (fst (createArchive L Z fs files True COMPRESS_NONE))) verbose))
                = List.map_filter (\<lambda>p. map_option (\<lambda>d. (p, d)) (fs p)) files
            \<and> snd (extractArchive Z
                  (Some (fst (createArchive L Z fs files True COMPRESS_NONE))) verbose)
                = (if list_all (\<lambda>p. fs p \<noteq> None) files then Returned else Indeterminate)
            \<and> triples (l_stdout (fst (listArchiveContents
                  (Some (fst (createArchive L Z fs files True COMPRESS_NONE))))))
                = List.map_filter
                    (\<lambda>p. map_option (\<lambda>d. (p, of_nat (length d), of_nat (length d))) (fs p))
                    files)"
proof (intro conjI ballI impI; (elim conjE)?)
  show "createArchive L Z fs files True COMPRESS_NONE =
           (header_bytes MAKAKA_VERSION 0 (of_nat (length files))
            @ concat (List.map_filter
                (\<lambda>p. map_option
                   (\<lambda>d. put_u32 (of_nat (length p)) @ string_bytes p
                        @ put_u64 (of_nat (length d)) @ put_u64 (of_nat (length d)) @ d)
                   (fs p)) files), Returned)"
    by (simp add: createArchive_def createArchive_loop_none [OF assms])
next
  fix p assume p: "p \<in> set files" and empty: "fs p = Some []"
  from p assms have len: "length p < 2 ^ 32"
    by simp
  have one: "\<forall>q\<in>set [p]. length q < 2 ^ 32 \<and> (\<forall>d. fs q = Some d \<longrightarrow> length d < 2 ^ 64)"
    using len empty by simp
  show "createArchive L Z fs [p] True COMPRESS_NONE =
              (header_bytes MAKAKA_VERSION 0 1
               @ put_u32 (of_nat (length p)) @ string_bytes p @ put_u64 0 @ put_u64 0,
               Returned)"
    using len
    by (simp add: createArchive_def empty entry_bytes_def unat_of_nat string_bytes_def)
  define a where "a = \<lparr>a_version = MAKAKA_VERSION,
      a_compression = compression_value COMPRESS_NONE,
      a_entries = map (\<lambda>q. packed_entry q [] []) [p]\<rparr>"
  have created: "createArchive L Z fs [p] True COMPRESS_NONE = (archive_stream a, Returned)"
    unfolding a_def by (rule createArchive_all_read) (simp_all add: empty)
  have fits: "archive_fits a"
    using len by (simp add: a_def archive_fits_def entry_fits_def packed_entry_def)
  have dec: "list_all (decodes Z (a_compression a)) (a_entries a)"
    by (simp add: a_def decodes_def decode_data_def)
  have out: "map (\<lambda>e. (e_name e, decoded Z (a_compression a) e)) (a_entries a) = [(p, [])]"
    by (simp add: a_def decoded_def decode_data_def packed_entry_def)
  from extractArchive_stream [OF fits dec, of "[]" verbose]
  show "snd (extractArchive Z
          (Some (fst (createArchive L Z fs [p] True COMPRESS_NONE))) verbose) = Returned"
    and "written (fst (extractArchive Z
          (Some (fst (createArchive L Z fs [p] True COMPRESS_NONE))) verbose)) = [(p, [])]"
    by (simp_all add: created out)
next
  assume count: "length files < 2 ^ 32"
    and small: "\<forall>p\<in>set files. \<forall>d. fs p = Some d \<longrightarrow> length d < 2 ^ 63"
  define es where
    "es = List.map_filter (\<lambda>p. map_option (\<lambda>d. packed_entry p d d) (fs p)) files"
  define m where "m = length files - length es"
  note facts = none_entries_facts [where fs = fs and files = files, folded es_def]
  have created: "fst (createArchive L Z fs files True COMPRESS_NONE) =
      header_bytes MAKAKA_VERSION 0 (of_nat (length files))
      @ (concat (map stored_entry es) @ [])"
    by (simp add: createArchive_def createArchive_loop_none_entries es_def)
  have fits: "list_all entry_fits es"
    using assms small by (intro facts(5)) simp
  have dec: "list_all (decodes Z 0) es"
    by (simp add: list_all_iff decodes_pass_through)
  have n: "unat (of_nat (length files) :: 32 word) = length es + m"
    using count facts(1) by (simp add: m_def unat_of_nat)
  have all: "m = 0 \<longleftrightarrow> list_all (\<lambda>p. fs p \<noteq> None) files"
    using facts(1) facts(2) by (auto simp: m_def)
  have copied: "map (\<lambda>e. (e_name e, decoded Z 0 e)) es = map (\<lambda>e. (e_name e, e_payload e)) es"
    by (simp add: decodes_pass_through)
  note read = counted_stream [OF fits dec n created]
  show "written (fst (extractArchive Z
          (Some (fst (createArchive L Z fs files True COMPRESS_NONE))) verbose))
        = List.map_filter (\<lambda>p. map_option (\<lambda>d. (p, d)) (fs p)) files"
    unfolding read(2) copied by (rule facts(3))
  show "snd (extractArchive Z
          (Some (fst (createArchive L Z fs files True COMPRESS_NONE))) verbose)
        = (if list_all (\<lambda>p. fs p \<noteq> None) files then Returned else Indeterminate)"
    unfolding read(1) using all by simp
  show "triples (l_stdout (fst (listArchiveContents
          (Some (fst (createArchive L Z fs files True COMPRESS_NONE))))))
        = List.map_filter
            (\<lambda>p. map_option (\<lambda>d. (p, of_nat (length d), of_nat (length d))) (fs p)) files"
    unfolding read(4) triples_of_listing by (rule facts(4))
qed

theorem none_codec_stores_raw_bytes_witness:
  "example_files ''valid.txt'' = Some [0x68, 0x69, 0x0A]
   \<and> example_files ''empty.bin'' = Some []
   \<and> fst (createArchive lzma_unavailable zstd_stored example_files
            [''valid.txt'', ''empty.bin''] True COMPRESS_NONE)
       = header_bytes MAKAKA_VERSION 0 2
         @ put_u32 9 @ string_bytes ''valid.txt'' @ put_u64 3 @ put_u64 3 @ [0x68, 0x69, 0x0A]
         @ put_u32 9 @ string_bytes ''empty.bin'' @ put_u64 0 @ put_u64 0
   \<and> written (fst (extractArchive zstd_stored
         (Some (fst (createArchive lzma_unavailable zstd_stored example_files
                       [''empty.bin''] True COMPRESS_NONE))) False))
       = [(''empty.bin'', [])]
   \<and> written (fst (extractArchive zstd_stored
         (Some (fst (createArchive lzma_unavailable zstd_stored example_files
                       [''valid.txt'', ''empty.bin''] True COMPRESS_NONE))) False))
       = [(''valid.txt'', [0x68, 0x69, 0x0A]), (''empty.bin'', [])]
   \<and> snd (extractArchive zstd_stored
         (Some (fst (createArchive lzma_unavailable zstd_stored example_files
                       [''valid.txt'', ''empty.bin''] True COMPRESS_NONE))) False)
       = Returned
   \<and> triples (l_stdout (fst (listArchiveContents
         (Some (fst (createArchive lzma_unavailable zstd_stored example_files
                       [''valid.txt'', ''empty.bin''] True COMPRESS_NONE))))))
       = [(''valid.txt'', 3, 3), (''empty.bin'', 0, 0)]"
proof -
  have h: "\<forall>p\<in>set [''valid.txt'', ''empty.bin''].
      length p < 2 ^ 32 \<and> (\<forall>d. example_files p = Some d \<longrightarrow> length d < 2 ^ 64)"
    by (auto simp: example_files_def)
  have e: "example_files ''empty.bin'' = Some []"
    by (simp add: example_files_def)
  have v: "example_files ''valid.txt'' = Some [0x68, 0x69, 0x0A]"
    by (simp add: example_files_def)
  note all = none_codec_stores_raw_bytes [OF h, of lzma_unavailable zstd_stored False]
  have stream: "fst (createArchive lzma_unavailable zstd_stored example_files
            [''valid.txt'', ''empty.bin''] True COMPRESS_NONE)
       = header_bytes MAKAKA_VERSION 0 2
         @ put_u32 9 @ string_bytes ''valid.txt'' @ put_u64 3 @ put_u64 3 @ [0x68, 0x69, 0x0A]
         @ put_u32 9 @ string_bytes ''empty.bin'' @ put_u64 0 @ put_u64 0"
    using all [THEN conjunct1] e v by simp
  have "''empty.bin'' \<in> set [''valid.txt'', ''empty.bin'']"
    by simp
  with all e have "written (fst (extractArchive zstd_stored
         (Some (fst (createArchive lzma_unavailable zstd_stored example_files
                       [''empty.bin''] True COMPRESS_NONE))) False))
       = [(''empty.bin'', [])]"
    by blast
  then have blank: "written (fst (extractArchive zstd_stored
         (Some (fst (createArchive lzma_unavailable zstd_stored example_files
                       [''empty.bin''] True COMPRESS_NONE))) False))
       = [(''empty.bin'', [])]" .
  have h2: "length [''valid.txt'', ''empty.bin''] < 2 ^ 32
      \<and> (\<forall>p\<in>set [''valid.txt'', ''empty.bin''].
            \<forall>d. example_files p = Some d \<longrightarrow> length d < 2 ^ 63)"
    by (auto simp: example_files_def)
  note read = all [THEN conjunct2, THEN conjunct2, THEN mp, OF h2]
  have files: "written (fst (extractArchive zstd_stored
         (Some (fst (createArchive lzma_unavailable zstd_stored example_files
                       [''valid.txt'', ''empty.bin''] True COMPRESS_NONE))) False))
       = [(''valid.txt'', [0x68, 0x69, 0x0A]), (''empty.bin'', [])]"
    using read [THEN conjunct1] e v by simp
  have returned: "snd (extractArchive zstd_stored
         (Some (fst (createArchive lzma_unavailable zstd_stored example_files
                       [''valid.txt'', ''empty.bin''] True COMPRESS_NONE))) False)
       = Returned"
    using read [THEN conjunct2, THEN conjunct1] e v by simp
  have listed: "triples (l_stdout (fst (listArchiveContents
         (Some (fst (createArchive lzma_unavailable zstd_stored example_files
                       [''valid.txt'', ''empty.bin''] True COMPRESS_NONE))))))
       = [(''valid.txt'', 3, 3), (''empty.bin'', 0, 0)]"
    using read [THEN conjunct2, THEN conjunct2] e v by simp
  from v e stream blank files returned listed show ?thesis
    by (intro conjI)
qed

lemma extract_entry_no_format_error:
  "snd (extract_entry Z c verbose st) \<noteq> Thrown InvalidFileFormat"
  unfolding extract_entry_def decode_data_def decompressZSTD_def
  by (auto split: prod.splits option.splits sum.splits if_splits)

lemma extract_loop_no_format_error:
  "snd (extract_loop Z c verbose n st) \<noteq> Thrown InvalidFileFormat"
proof (induction n arbitrary: st)
  case 0
  then show ?case by simp
next
  case (Suc n)
  show ?case
    using Suc [of "fst (extract_entry Z c verbose st)"]
      extract_entry_no_format_error [of Z c verbose st]
    by (cases "extract_entry Z c verbose st") (auto split: outcome.splits)
qed

lemma list_entry_no_format_error:
  "snd (list_entry st) \<noteq> Thrown InvalidFileFormat"
  unfolding list_entry_def
  by (auto split: prod.splits option.splits)

lemma list_loop_no_format_error:
  "snd (list_loop n st) \<noteq> Thrown InvalidFileFormat"
proof (induction n arbitrary: st)
  case 0
  then show ?case by simp
next
  case (Suc n)
  show ?case
    using Suc [of "fst (list_entry st)"] list_entry_no_format_error [of st]
    by (cases "list_entry st") (auto split: outcome.splits)
qed

lemma signed_stream_no_format_error:
  assumes "4 \<le> length bytes" and "take 4 bytes = put_u32 MAKAKA_SIGNATURE"
  shows "snd (extractArchive Z (Some bytes) verbose) \<noteq> Thrown InvalidFileFormat"
    and "snd (listArchiveContents (Some bytes)) \<noteq> Thrown InvalidFileFormat"
proof -
  have sig: "read_u32 (open_stream bytes) =
      (Some MAKAKA_SIGNATURE, \<lparr>content = bytes, pos = 4, failbit = False\<rparr>)"
    using read_u32_open [OF assms(1)] assms(2) by (simp add: value_put_u32)
  show "snd (extractArchive Z (Some bytes) verbose) \<noteq> Thrown InvalidFileFormat"
    unfolding extractArchive_def
    using extract_loop_no_format_error
    by (auto simp: Let_def sig split: prod.splits option.splits)
  show "snd (listArchiveContents (Some bytes)) \<noteq> Thrown InvalidFileFormat"
    unfolding listArchiveContents_def
    using list_loop_no_format_error
    by (auto simp: Let_def sig split: prod.splits option.splits)
qed

lemma read_buffer_short:
  assumes "at s xs" and "length xs < n"
  shows "read_buffer n s =
           (xs @ replicate (n - length xs) 0, (advance (length xs) s)\<lparr>failbit := True\<rparr>)"
  using assms by (simp add: read_buffer_def read_def at_def advance_def Let_def)

lemma entry_fields:
  assumes at: "at s (put_u32 (of_nat (length (e_name e))) @ string_bytes (e_name e)
                @ put_u64 (e_original_size e) @ put_u64 (of_nat (length (e_payload e))) @ rest)"
    and fits: "entry_fits e"
  shows "read_u32 s = (Some (of_nat (length (e_name e))), advance 4 s)"
    and "read_buffer (length (e_name e)) (advance 4 s)
           = (string_bytes (e_name e), advance (4 + length (e_name e)) s)"
    and "read_u64 (advance (4 + length (e_name e)) s)
           = (Some (e_original_size e), advance (12 + length (e_name e)) s)"
    and "read_u64 (advance (12 + length (e_name e)) s)
           = (Some (of_nat (length (e_payload e))), advance (20 + length (e_name e)) s)"
    and "at (advance (20 + length (e_name e)) s) rest"
proof -
  let ?nl = "of_nat (length (e_name e)) :: 32 word"
  let ?cs = "of_nat (length (e_payload e)) :: 64 word"
  from at have a0: "at s (put_u32 ?nl @ (string_bytes (e_name e)
           @ put_u64 (e_original_size e) @ put_u64 ?cs @ rest))"
    by simp
  show "read_u32 s = (Some ?nl, advance 4 s)"
    using at_read_u32 [OF a0] by simp
  have a1: "at (advance 4 s) (string_bytes (e_name e) @ (put_u64 (e_original_size e) @ put_u64 ?cs @ rest))"
    using at_read_u32 [OF a0] by simp
  show "read_buffer (length (e_name e)) (advance 4 s)
           = (string_bytes (e_name e), advance (4 + length (e_name e)) s)"
    using at_read_buffer [OF a1, of "length (e_name e)"]
    by (simp add: string_bytes_def advance_advance)
  have a2: "at (advance (4 + length (e_name e)) s) (put_u64 (e_original_size e) @ (put_u64 ?cs @ rest))"
    using at_read_buffer [OF a1, of "length (e_name e)"]
    by (simp add: string_bytes_def advance_advance)
  show "read_u64 (advance (4 + length (e_name e)) s)
           = (Some (e_original_size e), advance (12 + length (e_name e)) s)"
    using at_read_u64 [OF a2] by (simp add: advance_advance add.commute)
  have a3: "at (advance (12 + length (e_name e)) s) (put_u64 ?cs @ rest)"
    using at_read_u64 [OF a2] by (simp add: advance_advance add.commute)
  show "read_u64 (advance (12 + length (e_name e)) s)
           = (Some ?cs, advance (20 + length (e_name e)) s)"
    using at_read_u64 [OF a3] by (simp add: advance_advance add.commute)
  show "at (advance (20 + length (e_name e)) s) rest"
    using at_read_u64 [OF a3] by (simp add: advance_advance add.commute)
qed

lemma stored_entry_take:
  assumes "entry_fits e" and "k \<le> length (e_payload e)"
  shows "take (length (stored_entry e) - k) (stored_entry e) =
           put_u32 (of_nat (length (e_name e))) @ string_bytes (e_name e)
           @ put_u64 (e_original_size e) @ put_u64 (of_nat (length (e_payload e)))
           @ take (length (e_payload e) - k) (e_payload e)"
  using assms(2)
  by (simp add: stored_entry_fits(1) [OF assms(1)] length_put string_bytes_def)

lemma extract_entry_cut:
  assumes at: "at (inp st) (take (length (stored_entry e) - k) (stored_entry e))"
    and fits: "entry_fits e" and k: "0 < k" "k \<le> length (e_payload e)"
    and c: "c \<noteq> compression_value COMPRESS_ZSTD"
  shows "snd (extract_entry Z (Some c) verbose st) = Returned"
    and "written (fst (extract_entry Z (Some c) verbose st)) =
           written st @ [(e_name e, take (length (e_payload e) - k) (e_payload e)
                                     @ replicate k 0)]"
    and "stdout (fst (extract_entry Z (Some c) verbose st)) =
           stdout st @ (if verbose then [extracting_line e] else [])"
proof -
  let ?short = "take (length (e_payload e) - k) (e_payload e)"
  note f = entry_fields [OF at [unfolded stored_entry_take [OF fits k(2)]] fits]
  have short: "length ?short < length (e_payload e)"
    using k by simp
  have pad: "length (e_payload e) - length ?short = k"
    using k by simp
  note r5 = read_buffer_short [OF f(5) short, unfolded pad]
  note u = stored_entry_fits(2,3) [OF fits]
  show "snd (extract_entry Z (Some c) verbose st) = Returned"
    and "written (fst (extract_entry Z (Some c) verbose st)) =
           written st @ [(e_name e, ?short @ replicate k 0)]"
    and "stdout (fst (extract_entry Z (Some c) verbose st)) =
           stdout st @ (if verbose then [extracting_line e] else [])"
    unfolding extract_entry_def
    using c
    by (simp_all add: f(1-4) u r5 decode_data_def bytes_string_string_bytes extracting_line_def)
qed

lemma list_entry_cut:
  assumes at: "at (l_inp st) (take (length (stored_entry e) - k) (stored_entry e))"
    and fits: "entry_fits e" and k: "k \<le> length (e_payload e)"
  shows "snd (list_entry st) = Returned"
    and "l_stdout (fst (list_entry st)) = l_stdout st @ [listed_line e]"
proof -
  note f = entry_fields [OF at [unfolded stored_entry_take [OF fits k]] fits]
  note u = stored_entry_fits(2) [OF fits]
  show "snd (list_entry st) = Returned"
    and "l_stdout (fst (list_entry st)) = l_stdout st @ [listed_line e]"
    unfolding list_entry_def
    by (simp_all add: f(1-4) u bytes_string_string_bytes listed_line_def)
qed

lemma extract_loop_once: "extract_loop Z c verbose (Suc 0) st = extract_entry Z c verbose st"
  by (cases "extract_entry Z c verbose st") (simp split: outcome.splits)

lemma list_loop_once: "list_loop (Suc 0) st = list_entry st"
  by (cases "list_entry st") (simp split: outcome.splits)

lemma take_off_end:
  assumes "k \<le> length ys"
  shows "take (length (xs @ ys) - k) (xs @ ys) = xs @ take (length ys - k) ys"
  using assms by simp

lemma cut_archive_stream:
  assumes "a_entries a = front @ [e]" and "k \<le> length (stored_entry e)"
  shows "take (length (archive_stream a) - k) (archive_stream a) =
           header_bytes (a_version a) (a_compression a) (of_nat (length (a_entries a)))
           @ (concat (map stored_entry front)
              @ take (length (stored_entry e) - k) (stored_entry e))"
proof -
  let ?pre = "header_bytes (a_version a) (a_compression a) (of_nat (length (a_entries a)))
       @ concat (map stored_entry front)"
  have whole: "archive_stream a = ?pre @ stored_entry e"
    by (simp add: archive_stream_def assms(1))
  have "take (length (?pre @ stored_entry e) - k) (?pre @ stored_entry e) =
          ?pre @ take (length (stored_entry e) - k) (stored_entry e)"
    by (rule take_off_end [OF assms(2)])
  then show ?thesis
    unfolding whole by simp
qed

lemma cut_last_payload:
  assumes fits: "archive_fits a" and es: "a_entries a = front @ [e]"
    and c: "a_compression a \<noteq> compression_value COMPRESS_ZSTD"
    and k: "0 < k" "k \<le> length (e_payload e)"
  defines "bytes \<equiv> take (length (archive_stream a) - k) (archive_stream a)"
  shows "snd (extractArchive Z (Some bytes) verbose) = Returned"
    and "written (fst (extractArchive Z (Some bytes) verbose)) =
           map (\<lambda>e. (e_name e, e_payload e)) front
           @ [(e_name e, take (length (e_payload e) - k) (e_payload e) @ replicate k 0)]"
    and "snd (listArchiveContents (Some bytes)) = Returned"
    and "triples (l_stdout (fst (listArchiveContents (Some bytes)))) =
           map entry_triple (a_entries a)"
proof -
  let ?cut = "take (length (stored_entry e) - k) (stored_entry e)"
  let ?c = "a_compression a"
  from fits es have ffront: "list_all entry_fits front" and fe: "entry_fits e"
    by (simp_all add: archive_fits_def)
  have ke: "k \<le> length (stored_entry e)"
    using k(2) by (simp add: length_stored_entry [OF fe])
  have shape: "bytes = header_bytes (a_version a) ?c (of_nat (length (a_entries a)))
           @ (concat (map stored_entry front) @ ?cut)"
    unfolding bytes_def by (rule cut_archive_stream [OF es ke])
  have count: "unat (of_nat (length (a_entries a)) :: 32 word) = length front + Suc 0"
    using unat_entry_count [OF fits] es by simp
  have dec: "list_all (decodes Z ?c) front"
    using c by (simp add: list_all_iff decodes_pass_through)
  let ?x0 = "\<lparr>inp = advance 12 (open_stream bytes),
        stdout = (if verbose
                  then [version_line (a_version a), CompressionLine (compression_name ?c),
                        CountLine (of_nat (length (a_entries a)))]
                  else []),
        written = []\<rparr>"
  let ?x1 = "?x0\<lparr>inp := advance (length (concat (map stored_entry front))) (inp ?x0),
        stdout := stdout ?x0 @ (if verbose then map extracting_line front else []),
        written := written ?x0 @ map (\<lambda>e. (e_name e, decoded Z ?c e)) front\<rparr>"
  have at0: "at (inp ?x0) (concat (map stored_entry front) @ ?cut)"
    using read_header(5) [OF shape] by simp
  have at1: "at (inp ?x1) ?cut"
    using at_advance [OF at0] by simp
  have "extractArchive Z (Some bytes) verbose = extract_loop Z (Some ?c) verbose
          (length front + Suc 0) ?x0"
    by (simp add: extractArchive_header [OF shape] count)
  also have "\<dots> = extract_loop Z (Some ?c) verbose (Suc 0) ?x1"
    by (rule extract_loop_stored [OF at0 ffront dec])
  also have "\<dots> = extract_entry Z (Some ?c) verbose ?x1"
    by (rule extract_loop_once)
  finally have x: "extractArchive Z (Some bytes) verbose = extract_entry Z (Some ?c) verbose ?x1" .
  have payloads: "map (\<lambda>e. (e_name e, decoded Z ?c e)) front
                    = map (\<lambda>e. (e_name e, e_payload e)) front"
    using c by (simp add: decodes_pass_through)
  show "snd (extractArchive Z (Some bytes) verbose) = Returned"
    using extract_entry_cut(1) [OF at1 fe k c] by (simp add: x)
  show "written (fst (extractArchive Z (Some bytes) verbose)) =
           map (\<lambda>e. (e_name e, e_payload e)) front
           @ [(e_name e, take (length (e_payload e) - k) (e_payload e) @ replicate k 0)]"
    unfolding x extract_entry_cut(2) [OF at1 fe k c] using payloads by simp
  let ?l0 = "\<lparr>l_inp = advance 12 (open_stream bytes),
        l_stdout = [version_line (a_version a), CompressionLine (compression_name ?c),
                    CountLine (of_nat (length (a_entries a)))]\<rparr>"
  let ?l1 = "?l0\<lparr>l_inp := advance (length (concat (map stored_entry front))) (l_inp ?l0),
        l_stdout := l_stdout ?l0 @ map listed_line front\<rparr>"
  have lat0: "at (l_inp ?l0) (concat (map stored_entry front) @ ?cut)"
    using read_header(5) [OF shape] by simp
  have lat1: "at (l_inp ?l1) ?cut"
    using at_advance [OF lat0] by simp
  have "listArchiveContents (Some bytes) = list_loop (length front + Suc 0) ?l0"
    by (simp add: listArchiveContents_header [OF shape] count)
  also have "\<dots> = list_loop (Suc 0) ?l1"
    by (rule list_loop_stored [OF lat0 ffront])
  also have "\<dots> = list_entry ?l1"
    by (rule list_loop_once)
  finally have l: "listArchiveContents (Some bytes) = list_entry ?l1" .
  show "snd (listArchiveContents (Some bytes)) = Returned"
    using list_entry_cut(1) [OF lat1 fe k(2)] by (simp add: l)
  have "l_stdout (fst (listArchiveContents (Some bytes))) =
          header_lines a @ map listed_line (a_entries a)"
    using list_entry_cut(2) [OF lat1 fe k(2)] by (simp add: l es header_lines_def)
  then show "triples (l_stdout (fst (listArchiveContents (Some bytes)))) =
           map entry_triple (a_entries a)"
    by (simp add: triples_listed)
qed

lemma single_archive_facts:
  "archive_fits single_archive"
  "a_entries single_archive
     = [] @ [\<lparr>e_name = ''a.txt'', e_original_size = 3, e_payload = [1, 2, 3]\<rparr>]"
  "a_compression single_archive \<noteq> compression_value COMPRESS_ZSTD"
  "length (archive_stream single_archive) = 40"
  by (simp_all add: single_archive_def archive_fits_def entry_fits_def archive_stream_def
      length_header_bytes length_stored_entry)

lemma take_signature:
  "take 4 (archive_stream a) = put_u32 MAKAKA_SIGNATURE"
  "take 4 (take 38 (archive_stream a)) = put_u32 MAKAKA_SIGNATURE"
  by (simp_all add: archive_stream_def header_bytes_def length_put)

lemma replicate_two: "replicate 2 x = [x, x]"
  by (simp add: numeral_2_eq_2)

subsection \<open>Truncated streams\<close>

text \<open>
  Claim C7, as stated, fails: an archive of one entry with the last two bytes of its
  payload missing carries the signature, and both readers return normally on it;
  the extraction writes the file with zero bytes in place of the missing ones.
\<close>

theorem truncated_stream_accepted_counterexample:
  "length (archive_stream single_archive) = 40
   \<and> take 4 (take 38 (archive_stream single_archive)) = put_u32 MAKAKA_SIGNATURE
   \<and> snd (extractArchive zstd_stored (Some (take 38 (archive_stream single_archive))) False)
       = Returned
   \<and> written (fst (extractArchive zstd_stored
         (Some (take 38 (archive_stream single_archive))) False))
       = [(''a.txt'', [1, 0, 0])]
   \<and> snd (listArchiveContents (Some (take 38 (archive_stream single_archive)))) = Returned"
proof -
  have k: "0 < (2::nat)"
    "2 \<le> length (e_payload \<lparr>e_name = ''a.txt'', e_original_size = 3, e_payload = [1, 2, 3]\<rparr>)"
    by simp_all
  note cut = cut_last_payload [OF single_archive_facts(1-3) k]
  show ?thesis
    using cut(1) [of zstd_stored False] cut(2) [of zstd_stored False] cut(3)
    by (simp add: single_archive_facts(4) take_signature replicate_two)
qed

text \<open>
  Claim C7, amended. A stream that carries the correct signature never makes
  \<open>extractArchive\<close> or \<open>listArchiveContents\<close> fail with the format error, truncated
  or not: the readers do not test the stream after a read. When an archive whose
  compression tag is not ZSTD is cut short inside the payload of its last entry,
  \<open>extractArchive\<close> returns normally, having written every file, the last one with
  the bytes that are present followed by zero bytes up to its declared compressed
  size, and \<open>listArchiveContents\<close> returns normally, reporting every entry with its
  declared sizes.
\<close>

theorem truncation_is_not_a_format_error:
  "(4 \<le> length bytes \<and> take 4 bytes = put_u32 MAKAKA_SIGNATURE \<longrightarrow>
      snd (extractArchive Z (Some bytes) verbose) \<noteq> Thrown InvalidFileFormat
      \<and> snd (listArchiveContents (Some bytes)) \<noteq> Thrown InvalidFileFormat)
   \<and> (archive_fits a \<and> a_entries a = front @ [e]
       \<and> a_compression a \<noteq> compression_value COMPRESS_ZSTD
       \<and> 0 < k \<and> k \<le> length (e_payload e) \<longrightarrow>
      snd (extractArchive Z (Some (take (length (archive_stream a) - k) (archive_stream a)))
             verbose) = Returned
      \<and> written (fst (extractArchive Z
             (Some (take (length (archive_stream a) - k) (archive_stream a))) verbose))
          = map (\<lambda>e. (e_name e, e_payload e)) front
            @ [(e_name e, take (length (e_payload e) - k) (e_payload e) @ replicate k 0)]
      \<and> snd (listArchiveContents
             (Some (take (length (archive_stream a) - k) (archive_stream a)))) = Returned
      \<and> triples (l_stdout (fst (listArchiveContents
             (Some (take (length (archive_stream a) - k) (archive_stream a))))))
          = map entry_triple (a_entries a))"
proof -
  have signed: "snd (extractArchive Z (Some bytes) verbose) \<noteq> Thrown InvalidFileFormat
      \<and> snd (listArchiveContents (Some bytes)) \<noteq> Thrown InvalidFileFormat"
    if "4 \<le> length bytes \<and> take 4 bytes = put_u32 MAKAKA_SIGNATURE"
    using that signed_stream_no_format_error(1) [of bytes Z verbose]
      signed_stream_no_format_error(2) [of bytes] by blast
  have cut: "snd (extractArchive Z (Some (take (length (archive_stream a) - k) (archive_stream a)))
             verbose) = Returned
      \<and> written (fst (extractArchive Z
             (Some (take (length (archive_stream a) - k) (archive_stream a))) verbose))
          = map (\<lambda>e. (e_name e, e_payload e)) front
            @ [(e_name e, take (length (e_payload e) - k) (e_payload e) @ replicate k 0)]
      \<and> snd (listArchiveContents
             (Some (take (length (archive_stream a) - k) (archive_stream a)))) = Returned
      \<and> triples (l_stdout (fst (listArchiveContents
             (Some (take (length (archive_stream a) - k) (archive_stream a))))))
          = map entry_triple (a_entries a)"
    if h: "archive_fits a \<and> a_entries a = front @ [e]
       \<and> a_compression a \<noteq> compression_value COMPRESS_ZSTD
       \<and> 0 < k \<and> k \<le> length (e_payload e)"
  proof -
    from h have f: "archive_fits a" "a_entries a = front @ [e]"
      "a_compression a \<noteq> compression_value COMPRESS_ZSTD" "0 < k" "k \<le> length (e_payload e)"
      by simp_all
    show ?thesis
      using cut_last_payload [OF f] by simp
  qed
  show ?thesis
    using signed cut by blast
qed

theorem truncation_is_not_a_format_error_witness:
  "4 \<le> length (take 38 (archive_stream single_archive))
   \<and> take 4 (take 38 (archive_stream single_archive)) = put_u32 MAKAKA_SIGNATURE
   \<and> snd (extractArchive zstd_stored (Some (take 38 (archive_stream single_archive))) True)
       \<noteq> Thrown InvalidFileFormat
   \<and> archive_fits single_archive
   \<and> a_entries single_archive
       = [] @ [\<lparr>e_name = ''a.txt'', e_original_size = 3, e_payload = [1, 2, 3]\<rparr>]
   \<and> a_compression single_archive \<noteq> compression_value COMPRESS_ZSTD
   \<and> triples (l_stdout (fst (listArchiveContents
         (Some (take (length (archive_stream single_archive) - 2)
                  (archive_stream single_archive))))))
       = [(''a.txt'', 3, 3)]"
proof -
  have l: "4 \<le> length (take 38 (archive_stream single_archive))"
    by (simp add: single_archive_facts(4))
  note t = truncation_is_not_a_format_error
    [of "take 38 (archive_stream single_archive)" zstd_stored True single_archive "[]"
      "\<lparr>e_name = ''a.txt'', e_original_size = 3, e_payload = [1, 2, 3]\<rparr>" 2]
  have one: "snd (extractArchive zstd_stored
         (Some (take 38 (archive_stream single_archive))) True) \<noteq> Thrown InvalidFileFormat"
    using t l take_signature(2) by blast
  have "triples (l_stdout (fst (listArchiveContents
         (Some (take (length (archive_stream single_archive) - 2)
                  (archive_stream single_archive))))))
       = map entry_triple (a_entries single_archive)"
    using t single_archive_facts(1-3) by simp
  then have two: "triples (l_stdout (fst (listArchiveContents
         (Some (take (length (archive_stream single_archive) - 2)
                  (archive_stream single_archive))))))
       = [(''a.txt'', 3, 3)]"
    by (simp add: single_archive_def entry_triple_def)
  from l take_signature(2) one single_archive_facts(1-3) two show ?thesis
    by (intro conjI)
qed

lemma overcounted_stream:
  assumes fits: "list_all entry_fits es" and dec: "list_all (decodes Z c) es"
    and n: "unat n = length es + Suc 0"
    and bytes: "bytes = header_bytes v c n @ (concat (map stored_entry es) @ [])"
  shows "snd (extractArchive Z (Some bytes) verbose) = Indeterminate"
    and "written (fst (extractArchive Z (Some bytes) verbose))
           = map (\<lambda>e. (e_name e, decoded Z c e)) es"
    and "snd (listArchiveContents (Some bytes)) = Indeterminate"
    and "l_stdout (fst (listArchiveContents (Some bytes)))
           = [version_line v, CompressionLine (compression_name c), CountLine n]
             @ map listed_line es"
proof -
  let ?x0 = "\<lparr>inp = advance 12 (open_stream bytes),
        stdout = (if verbose
                  then [version_line v, CompressionLine (compression_name c), CountLine n]
                  else []),
        written = []\<rparr>"
  let ?x1 = "?x0\<lparr>inp := advance (length (concat (map stored_entry es))) (inp ?x0),
        stdout := stdout ?x0 @ (if verbose then map extracting_line es else []),
        written := written ?x0 @ map (\<lambda>e. (e_name e, decoded Z c e)) es\<rparr>"
  have at0: "at (inp ?x0) (concat (map stored_entry es) @ [])"
    using read_header(5) [OF bytes] by simp
  have at1: "at (inp ?x1) []"
    using at_advance [OF at0] by simp
  have "extractArchive Z (Some bytes) verbose =
          extract_loop Z (Some c) verbose (length es + Suc 0) ?x0"
    by (simp add: extractArchive_header [OF bytes] n)
  also have "\<dots> = extract_loop Z (Some c) verbose (Suc 0) ?x1"
    by (rule extract_loop_stored [OF at0 fits dec])
  also have "\<dots> = extract_entry Z (Some c) verbose ?x1"
    by (rule extract_loop_once)
  finally have x: "extractArchive Z (Some bytes) verbose = extract_entry Z (Some c) verbose ?x1" .
  show "snd (extractArchive Z (Some bytes) verbose) = Indeterminate"
    unfolding x by (rule extract_entry_at_end(1) [OF at1])
  show "written (fst (extractArchive Z (Some bytes) verbose))
           = map (\<lambda>e. (e_name e, decoded Z c e)) es"
    unfolding x extract_entry_at_end(2) [OF at1] by simp
  let ?l0 = "\<lparr>l_inp = advance 12 (open_stream bytes),
        l_stdout = [version_line v, CompressionLine (compression_name c), CountLine n]\<rparr>"
  let ?l1 = "?l0\<lparr>l_inp := advance (length (concat (map stored_entry es))) (l_inp ?l0),
        l_stdout := l_stdout ?l0 @ map listed_line es\<rparr>"
  have lat0: "at (l_inp ?l0) (concat (map stored_entry es) @ [])"
    using read_header(5) [OF bytes] by simp
  have lat1: "at (l_inp ?l1) []"
    using at_advance [OF lat0] by simp
  have "listArchiveContents (Some bytes) = list_loop (length es + Suc 0) ?l0"
    by (simp add: listArchiveContents_header [OF bytes] n)
  also have "\<dots> = list_loop (Suc 0) ?l1"
    by (rule list_loop_stored [OF lat0 fits])
  also have "\<dots> = list_entry ?l1"
    by (rule list_loop_once)
  finally have l: "listArchiveContents (Some bytes) = list_entry ?l1" .
  show "snd (listArchiveContents (Some bytes)) = Indeterminate"
    unfolding l by (rule list_entry_at_end(1) [OF lat1])
  show "l_stdout (fst (listArchiveContents (Some bytes)))
           = [version_line v, CompressionLine (compression_name c), CountLine n]
             @ map listed_line es"
    unfolding l list_entry_at_end(2) [OF lat1] by simp
qed

subsection \<open>The entry count when a file is skipped\<close>

text \<open>
  Claim C2 on the code. Packing \<open>valid.txt\<close> and an unreadable \<open>missing.txt\<close>
  skips the second file and stores one entry, but the header written before the loop
  carries the entry count 2. Both readers then look for a second entry past the end
  of the stream: the listing prints one entry and the extraction writes one file, and
  each goes on to use a name length that no read has filled.
\<close>

theorem skipped_file_is_counted:
  "createArchive lzma_unavailable zstd_stored example_files
       [''valid.txt'', ''missing.txt''] True COMPRESS_ZSTD
     = (header_bytes MAKAKA_VERSION 2 2
        @ put_u32 9 @ string_bytes ''valid.txt'' @ put_u64 3 @ put_u64 3 @ [0x68, 0x69, 0x0A],
        Returned)
   \<and> l_stdout (fst (listArchiveContents (Some (fst (createArchive lzma_unavailable zstd_stored
          example_files [''valid.txt'', ''missing.txt''] True COMPRESS_ZSTD)))))
       = [VersionLine 1 0, CompressionLine ''ZSTD'', CountLine 2, ListedLine ''valid.txt'' 3 3]
   \<and> snd (listArchiveContents (Some (fst (createArchive lzma_unavailable zstd_stored
          example_files [''valid.txt'', ''missing.txt''] True COMPRESS_ZSTD))))
       = Indeterminate
   \<and> written (fst (extractArchive zstd_stored (Some (fst (createArchive lzma_unavailable
          zstd_stored example_files [''valid.txt'', ''missing.txt''] True COMPRESS_ZSTD)))
          False))
       = [(''valid.txt'', [0x68, 0x69, 0x0A])]
   \<and> snd (extractArchive zstd_stored (Some (fst (createArchive lzma_unavailable
          zstd_stored example_files [''valid.txt'', ''missing.txt''] True COMPRESS_ZSTD)))
          False)
       = Indeterminate"
proof -
  let ?e = "packed_entry ''valid.txt'' [0x68, 0x69, 0x0A] [0x68, 0x69, 0x0A]"
  have fit: "list_all entry_fits [?e]"
    by (simp add: entry_fits_def packed_entry_def)
  have stored: "stored_entry ?e =
      put_u32 9 @ string_bytes ''valid.txt'' @ put_u64 3 @ put_u64 3 @ [0x68, 0x69, 0x0A]"
    using stored_entry_fits(1) [of ?e] fit by (simp add: packed_entry_def)
  have created: "createArchive lzma_unavailable zstd_stored example_files
       [''valid.txt'', ''missing.txt''] True COMPRESS_ZSTD
     = (header_bytes MAKAKA_VERSION 2 2 @ (concat (map stored_entry [?e]) @ []), Returned)"
    by (simp add: createArchive_def example_files_def compressWithZSTD_def zstd_stored_def
        stored_entry_def packed_entry_def)
  have dec: "list_all (decodes zstd_stored 2) [?e]"
    by (simp add: decodes_def decode_data_def decompressZSTD_def zstd_stored_def
        packed_entry_def)
  have n: "unat (2 :: 32 word) = length [?e] + Suc 0"
    by simp
  note over = overcounted_stream [OF fit dec n refl, of MAKAKA_VERSION]
  have lines: "[version_line MAKAKA_VERSION, CompressionLine (compression_name 2), CountLine 2]
        @ map listed_line [?e]
      = [VersionLine 1 0, CompressionLine ''ZSTD'', CountLine 2, ListedLine ''valid.txt'' 3 3]"
    by (simp add: version_line_def MAKAKA_VERSION_def compression_name_def listed_line_def
        packed_entry_def)
  have files: "map (\<lambda>e. (e_name e, decoded zstd_stored 2 e)) [?e]
      = [(''valid.txt'', [0x68, 0x69, 0x0A])]"
    by (simp add: decoded_def decode_data_def decompressZSTD_def zstd_stored_def
        packed_entry_def)
  show ?thesis
    unfolding created fst_conv
    using over(1) [of False] over(2) [of False] over(3) over(4) lines files
    by (simp add: stored)
qed

subsection \<open>The codec wrappers\<close>

text \<open>
  Claim C4 on the code. The program has no LZMA decompression: under the LZMA tag the
  reader's choice between decompressing and copying returns the stored bytes
  themselves. For the one-byte input \<open>0x41\<close> the writer gives liblzma an output
  buffer of one byte, which receives the first byte \<open>0xFD\<close> of the stream header, so
  compressing and then decoding yields \<open>0xFD\<close>, not the input.
\<close>

theorem lzma_payload_is_not_decoded:
  "decode_data Z (compression_value COMPRESS_LZMA) compressed_data original_size
     = Inr compressed_data
   \<and> compress_data lzma_started Z COMPRESS_LZMA [0x41] = Inr [0xFD]"
  by (simp add: decode_data_def compressWithLZMA_def lzma_started_def xz_magic_def)

text \<open>
  Claim C8 on the code. \<open>compressWithLZMA\<close> discards the return code of
  \<open>lzma_code\<close>: whatever that code is, an error or an unfinished stream, the bytes
  written so far are returned as the result. For the one-byte input \<open>0x41\<close> the
  encoder is not finished (\<open>LZMA_OK\<close>, not \<open>LZMA_STREAM_END\<close>) and the single byte
  \<open>0xFD\<close> is returned as if it were the compressed data.
\<close>

theorem lzma_code_result_is_ignored:
  "compressWithLZMA
       \<lparr>lzma_easy_encoder = LZMA_OK, lzma_code = (\<lambda>input avail_out. (ret, out))\<rparr> input
     = Inr out
   \<and> fst (lzma_code lzma_started [0x41] 1) \<noteq> LZMA_STREAM_END
   \<and> compressWithLZMA lzma_started [0x41] = Inr [0xFD]"
  by (simp add: compressWithLZMA_def lzma_started_def xz_magic_def)

end
